theory Spec2Isabelle
  imports Main
begin

section \<open>The consumer Runner of kafkajs (src/consumer/runner.js)\<close>

text \<open>
  The Runner is asynchronous JavaScript: every \<^verbatim>\<open>await\<close> is a point where the
  collaborator answers (or fails) and where other code of the same event loop may run.
  The embedding is explicit state passing over a \<open>world\<close>: the two flags the Runner owns,
  the part of the ConsumerGroup it observes, and the trace of everything it did.
  Each awaited call asks an oracle for the answer of the collaborator and for the
  actions the rest of the program performed while the Runner was suspended.
\<close>

subsection \<open>Data\<close>

type_synonym topic = string
type_synonym partition = nat

record message =
  offset :: int
  msg_key :: string
  msg_value :: string

record batch =
  b_topic :: topic
  b_partition :: partition
  highWatermark :: int
  messages :: "message list"

text \<open>
  A JavaScript error object, as far as the Runner inspects it: \<^verbatim>\<open>e.name\<close>,
  \<^verbatim>\<open>e.type\<close> (the empty string when undefined), \<^verbatim>\<open>e.message\<close> and the
  outcome of \<^verbatim>\<open>e instanceof KafkaJSError\<close>.
\<close>

record kerror =
  e_name :: string
  e_type :: string
  e_message :: string
  e_kafkajs :: bool

datatype completion = Returned | Threw kerror

text \<open>
  What other code of the event loop can do while one flow of the Runner is suspended:
  call \<^verbatim>\<open>stop()\<close> (whose first effect is \<^verbatim>\<open>running = false\<close>) or seek a
  partition; and what the other flows of the same Runner do meanwhile, seen from the
  suspended one: the fetch loop writes \<^verbatim>\<open>consuming\<close>, and a \<^verbatim>\<open>join\<close> or a
  \<^verbatim>\<open>start\<close> that gets to its \<^verbatim>\<open>this.running = true\<close> raises \<^verbatim>\<open>running\<close>.
\<close>

datatype env_action =
    StopCalled
  | SeekCalled topic partition int
  | ConsumingSet bool
  | RunningRaised

datatype instr =
    GROUP_JOIN "string option"
  | FETCH nat
  | START_BATCH_PROCESS topic partition
  | END_BATCH_PROCESS topic partition

datatype level = LDebug | LInfo | LError

datatype call =
    GroupJoin
  | GroupSync
  | GroupLeave
  | GroupFetch
  | Heartbeat nat
  | CommitOffsets "(topic \<times> partition \<times> int) list option"
  | CommitOffsetsIfNecessary
  | EachMessage topic partition message
  | EachBatch batch
  | Timeout nat
  | Backoff nat
  | OnCrash kerror
  | IsLeader
  | Listeners instr
  | Logger level string

datatype reentry = Direct | Immediate

datatype event =
    Called call completion
  | Resolve topic partition int
  | Emit instr
  | Log level string
  | SetRunning bool
  | SetConsuming bool
  | SetMemberIdNull
  | Env env_action
  | ScheduleFetch reentry

record world =
  running :: bool
  consuming :: bool
  memberId :: "string option"
  resolved :: "topic \<times> partition \<Rightarrow> int option"
  committed :: "topic \<times> partition \<Rightarrow> int option"
  seekOffsets :: "topic \<times> partition \<Rightarrow> int option"
  trace :: "event list"

type_synonym response = "env_action list \<times> completion"

text \<open>
  The batch handler receives a control surface and may use it in any order, depending on
  what each call returned. Its behaviour is an interaction tree: every node is one use of
  the surface, the continuation receives the answer.
\<close>

datatype hprog =
    HReturn
  | HThrow kerror
  | HResolveOffset int hprog
  | HHeartbeat "completion \<Rightarrow> hprog"
  | HCommitOffsetsIfNecessary "(topic \<times> partition \<times> int) list option" "completion \<Rightarrow> hprog"
  | HUncommittedOffsets "(topic \<times> partition \<Rightarrow> int option) \<Rightarrow> hprog"
  | HIsRunning "bool \<Rightarrow> hprog"
  | HIsStale "bool \<Rightarrow> hprog"
  | HAct env_action hprog

record config =
  eachBatchAutoResolve :: bool
  partitionsConsumedConcurrently :: nat
  eachBatch :: "(batch \<Rightarrow> world \<Rightarrow> hprog) option"
  eachMessage :: "(topic \<Rightarrow> partition \<Rightarrow> message \<Rightarrow> world \<Rightarrow> response) option"
  heartbeatInterval :: nat
  retries :: nat
  autoCommit :: bool
  isTestMode :: bool

text \<open>
  The environment answers every call the Runner makes (what the rest of the program did
  meanwhile, and how the call ended), tells what a fetch returned, whether the group's
  commit thresholds are met, which member id a join assigned, and what the rest of the
  program did between the settlement of a \<^verbatim>\<open>join\<close> and the resumption of the flow
  that awaits it.
\<close>

record env =
  respond :: "call \<Rightarrow> world \<Rightarrow> response"
  fetched :: "world \<Rightarrow> batch list"
  commitDue :: "world \<Rightarrow> bool"
  assignedMember :: "world \<Rightarrow> string"
  resumption :: "world \<Rightarrow> env_action list"

subsection \<open>Trace and interference\<close>

definition record_event :: "event \<Rightarrow> world \<Rightarrow> world" where
  "record_event ev w = w\<lparr>trace := trace w @ [ev]\<rparr>"

fun interfere1 :: "env_action \<Rightarrow> world \<Rightarrow> world" where
  "interfere1 StopCalled w = record_event (Env StopCalled) (w\<lparr>running := False\<rparr>)"
| "interfere1 (SeekCalled t p off) w =
     record_event (Env (SeekCalled t p off)) (w\<lparr>seekOffsets := (seekOffsets w)((t, p) \<mapsto> off)\<rparr>)"
| "interfere1 (ConsumingSet b) w = record_event (Env (ConsumingSet b)) (w\<lparr>consuming := b\<rparr>)"
| "interfere1 RunningRaised w = record_event (Env RunningRaised) (w\<lparr>running := True\<rparr>)"

definition interfere :: "env_action list \<Rightarrow> world \<Rightarrow> world" where
  "interfere acts w = fold interfere1 acts w"

subsection \<open>The ConsumerGroup collaborator\<close>

text \<open>
  Modelled from the spec: the ConsumerGroup (src/consumer/consumerGroup.js and its offset
  manager) is not part of the sources at hand. The spec gives it, per (topic, partition),
  a last resolved offset, a last committed offset and an optional seek override;
  \<^verbatim>\<open>resolveOffset\<close> marks an offset as ready to commit, \<^verbatim>\<open>commitOffsets()\<close> commits all
  resolved offsets, \<^verbatim>\<open>commitOffsets(offsets)\<close> commits the given ones, and
  \<^verbatim>\<open>commitOffsetsIfNecessary\<close> commits only when its thresholds are met. The committed
  value is the offset after the resolved one (a batch whose last offset is \<open>n\<close> is committed
  as \<open>n + 1\<close>).
\<close>

definition resolveOffset :: "topic \<Rightarrow> partition \<Rightarrow> int \<Rightarrow> world \<Rightarrow> world" where
  "resolveOffset t p off w =
     record_event (Resolve t p off) (w\<lparr>resolved := (resolved w)((t, p) \<mapsto> off)\<rparr>)"

definition hasSeekOffset :: "world \<Rightarrow> topic \<Rightarrow> partition \<Rightarrow> bool" where
  "hasSeekOffset w t p = (seekOffsets w (t, p) \<noteq> None)"

definition uncommittedOffsets :: "world \<Rightarrow> topic \<times> partition \<Rightarrow> int option" where
  "uncommittedOffsets w =
     (\<lambda>tp. case resolved w tp of
              None \<Rightarrow> None
            | Some r \<Rightarrow> (if committed w tp = Some (r + 1) then None else Some (r + 1)))"

definition commitResolved :: "world \<Rightarrow> world" where
  "commitResolved w =
     w\<lparr>committed := (\<lambda>tp. case resolved w tp of None \<Rightarrow> committed w tp | Some r \<Rightarrow> Some (r + 1))\<rparr>"

definition commitGiven :: "(topic \<times> partition \<times> int) list \<Rightarrow> world \<Rightarrow> world" where
  "commitGiven offs w =
     w\<lparr>committed := fold (\<lambda>(t, p, off) c. c((t, p) \<mapsto> off)) offs (committed w)\<rparr>"

fun effect :: "env \<Rightarrow> call \<Rightarrow> world \<Rightarrow> world" where
  "effect en (CommitOffsets None) w = commitResolved w"
| "effect en (CommitOffsets (Some offs)) w = commitGiven offs w"
| "effect en CommitOffsetsIfNecessary w = (if commitDue en w then commitResolved w else w)"
| "effect en GroupJoin w = w\<lparr>memberId := Some (assignedMember en w)\<rparr>"
| "effect en c w = w"

text \<open>
  An awaited call: the actions of the rest of the program happen while the Runner is
  suspended, then the call completes; its effect on the group takes place only when it
  succeeds.
\<close>

definition settle :: "call \<Rightarrow> response \<Rightarrow> (world \<Rightarrow> world) \<Rightarrow> world \<Rightarrow> completion \<times> world" where
  "settle c r eff w =
     (let w1 = interfere (fst r) w;
          w2 = (case snd r of Returned \<Rightarrow> eff w1 | Threw e \<Rightarrow> w1)
      in (snd r, record_event (Called c (snd r)) w2))"

definition perform :: "env \<Rightarrow> call \<Rightarrow> world \<Rightarrow> completion \<times> world" where
  "perform en c w = settle c (respond en c w) (effect en c) w"

text \<open>
  Modelled from the spec: the Batch class (src/consumer/batch.js) is not part of the
  sources at hand. The spec lists \<^verbatim>\<open>isEmpty\<close>, \<^verbatim>\<open>firstOffset\<close> and \<^verbatim>\<open>lastOffset\<close> as
  derived from the ordered message sequence. For an empty batch, which \<^verbatim>\<open>fetch\<close> never
  dispatches, \<open>lastOffset\<close> is taken to be the offset before the high watermark.
\<close>

definition isEmpty :: "batch \<Rightarrow> bool" where
  "isEmpty b = (messages b = [])"

definition lastOffset :: "batch \<Rightarrow> int" where
  "lastOffset b = (if messages b = [] then highWatermark b - 1 else offset (last (messages b)))"

subsection \<open>Runner: commits and message-at-a-time processing\<close>

text \<open>
  \<^verbatim>\<open>this.eachMessage(...)\<close> with no handler configured is a TypeError thrown inside the
  \<^verbatim>\<open>try\<close>.
\<close>

definition typeError :: kerror where
  "typeError = \<lparr>e_name = ''TypeError'', e_type = '''', e_message = ''not a function'', e_kafkajs = False\<rparr>"

definition invokeEachMessage :: "config \<Rightarrow> topic \<Rightarrow> partition \<Rightarrow> message \<Rightarrow> world \<Rightarrow> completion \<times> world" where
  "invokeEachMessage cfg t p m w =
     (case eachMessage cfg of
        None \<Rightarrow> (Threw typeError, w)
      | Some h \<Rightarrow> settle (EachMessage t p m) (h t p m w) id w)"

definition autoCommitOffsets :: "env \<Rightarrow> config \<Rightarrow> world \<Rightarrow> completion \<times> world" where
  "autoCommitOffsets en cfg w =
     (if autoCommit cfg then perform en (CommitOffsets None) w else (Returned, w))"

definition autoCommitOffsetsIfNecessary :: "env \<Rightarrow> config \<Rightarrow> world \<Rightarrow> completion \<times> world" where
  "autoCommitOffsetsIfNecessary en cfg w =
     (if autoCommit cfg then perform en CommitOffsetsIfNecessary w else (Returned, w))"

definition logUnlessKafkaJSError :: "kerror \<Rightarrow> string \<Rightarrow> world \<Rightarrow> world" where
  "logUnlessKafkaJSError e msg w = (if \<not> e_kafkajs e then record_event (Log LError msg) w else w)"

fun eachMessageLoop ::
  "env \<Rightarrow> config \<Rightarrow> topic \<Rightarrow> partition \<Rightarrow> message list \<Rightarrow> world \<Rightarrow> completion \<times> world" where
  "eachMessageLoop en cfg t p [] w = (Returned, w)"
| "eachMessageLoop en cfg t p (m # ms) w =
     (if \<not> running w \<or> hasSeekOffset w t p then (Returned, w)
      else
        (case invokeEachMessage cfg t p m w of
           (Threw e, w1) \<Rightarrow>
             (let w2 = logUnlessKafkaJSError e ''Error when calling eachMessage'' w1
              in case perform en (CommitOffsets None) w2 of
                   (Threw e', w3) \<Rightarrow> (Threw e', w3)
                 | (Returned, w3) \<Rightarrow> (Threw e, w3))
         | (Returned, w1) \<Rightarrow>
             (let w2 = resolveOffset t p (offset m) w1
              in case perform en (Heartbeat (heartbeatInterval cfg)) w2 of
                   (Threw e, w3) \<Rightarrow> (Threw e, w3)
                 | (Returned, w3) \<Rightarrow>
                     (case perform en CommitOffsetsIfNecessary w3 of
                        (Threw e, w4) \<Rightarrow> (Threw e, w4)
                      | (Returned, w4) \<Rightarrow> eachMessageLoop en cfg t p ms w4))))"

definition processEachMessage :: "env \<Rightarrow> config \<Rightarrow> batch \<Rightarrow> world \<Rightarrow> completion \<times> world" where
  "processEachMessage en cfg b w = eachMessageLoop en cfg (b_topic b) (b_partition b) (messages b) w"

subsection \<open>Runner: whole-batch processing\<close>

text \<open>
  The control surface handed to \<^verbatim>\<open>eachBatch\<close>: each node of the handler's tree is
  carried out on the group exactly as the closures of \<^verbatim>\<open>processEachBatch\<close> do.
\<close>

primrec runEachBatch ::
  "env \<Rightarrow> config \<Rightarrow> topic \<Rightarrow> partition \<Rightarrow> hprog \<Rightarrow> world \<Rightarrow> completion \<times> world" where
  "runEachBatch en cfg t p HReturn = (\<lambda>w. (Returned, w))"
| "runEachBatch en cfg t p (HThrow e) = (\<lambda>w. (Threw e, w))"
| "runEachBatch en cfg t p (HResolveOffset off k) =
     (\<lambda>w. runEachBatch en cfg t p k (resolveOffset t p off w))"
| "runEachBatch en cfg t p (HHeartbeat k) =
     (\<lambda>w. case perform en (Heartbeat (heartbeatInterval cfg)) w of
             (r, w1) \<Rightarrow> runEachBatch en cfg t p (k r) w1)"
| "runEachBatch en cfg t p (HCommitOffsetsIfNecessary offsets k) =
     (\<lambda>w. case (case offsets of
                   Some offs \<Rightarrow> perform en (CommitOffsets (Some offs)) w
                 | None \<Rightarrow> perform en CommitOffsetsIfNecessary w) of
             (r, w1) \<Rightarrow> runEachBatch en cfg t p (k r) w1)"
| "runEachBatch en cfg t p (HUncommittedOffsets k) =
     (\<lambda>w. runEachBatch en cfg t p (k (uncommittedOffsets w)) w)"
| "runEachBatch en cfg t p (HIsRunning k) =
     (\<lambda>w. runEachBatch en cfg t p (k (running w)) w)"
| "runEachBatch en cfg t p (HIsStale k) =
     (\<lambda>w. runEachBatch en cfg t p (k (hasSeekOffset w t p)) w)"
| "runEachBatch en cfg t p (HAct a k) =
     (\<lambda>w. runEachBatch en cfg t p k (interfere1 a w))"

definition invokeEachBatch :: "env \<Rightarrow> config \<Rightarrow> batch \<Rightarrow> world \<Rightarrow> completion \<times> world" where
  "invokeEachBatch en cfg b w =
     (case eachBatch cfg of
        None \<Rightarrow> (Threw typeError, w)
      | Some h \<Rightarrow>
          (case runEachBatch en cfg (b_topic b) (b_partition b) (h b w) w of
             (r, w1) \<Rightarrow> (r, record_event (Called (EachBatch b) r) w1)))"

definition processEachBatch :: "env \<Rightarrow> config \<Rightarrow> batch \<Rightarrow> world \<Rightarrow> completion \<times> world" where
  "processEachBatch en cfg b w =
     (case invokeEachBatch en cfg b w of
        (Threw e, w1) \<Rightarrow>
          (let w2 = logUnlessKafkaJSError e ''Error when calling eachBatch'' w1
           in case autoCommitOffsets en cfg w2 of
                (Threw e', w3) \<Rightarrow> (Threw e', w3)
              | (Returned, w3) \<Rightarrow> (Threw e, w3))
      | (Returned, w1) \<Rightarrow>
          (Returned,
           if eachBatchAutoResolve cfg
           then resolveOffset (b_topic b) (b_partition b) (lastOffset b) w1
           else w1))"

subsection \<open>Runner: one fetch cycle\<close>

definition onBatch :: "env \<Rightarrow> config \<Rightarrow> batch \<Rightarrow> world \<Rightarrow> completion \<times> world" where
  "onBatch en cfg b w =
     (let w1 = record_event (Emit (START_BATCH_PROCESS (b_topic b) (b_partition b))) w
      in case (if eachMessage cfg \<noteq> None then processEachMessage en cfg b w1
               else if eachBatch cfg \<noteq> None then processEachBatch en cfg b w1
               else (Returned, w1)) of
           (Threw e, w2) \<Rightarrow> (Threw e, w2)
         | (Returned, w2) \<Rightarrow>
             (Returned, record_event (Emit (END_BATCH_PROCESS (b_topic b) (b_partition b))) w2))"

definition batchTask :: "env \<Rightarrow> config \<Rightarrow> batch \<Rightarrow> world \<Rightarrow> completion \<times> world" where
  "batchTask en cfg b w =
     (if \<not> running w then (Returned, w)
      else if isEmpty b then (Returned, w)
      else onBatch en cfg b w)"

text \<open>
  The tasks of one cycle are followed in fetch order, one after the other, which is the
  schedule of \<^verbatim>\<open>partitionsConsumedConcurrently = 1\<close>; \<^verbatim>\<open>Promise.all\<close> rejects with the
  first rejection, and the cycle is followed up to that point (what the tasks still
  queued do after that is not followed). With a larger limit the tasks of different
  partitions interleave at their awaits; what is proved below about one batch is about
  one such task, and the limiter itself is modelled further down.
\<close>

fun runTasks :: "env \<Rightarrow> config \<Rightarrow> batch list \<Rightarrow> world \<Rightarrow> completion \<times> world" where
  "runTasks en cfg [] w = (Returned, w)"
| "runTasks en cfg (b # bs) w =
     (case batchTask en cfg b w of
        (Threw e, w1) \<Rightarrow> (Threw e, w1)
      | (Returned, w1) \<Rightarrow> runTasks en cfg bs w1)"

definition fetch :: "env \<Rightarrow> config \<Rightarrow> world \<Rightarrow> completion \<times> world" where
  "fetch en cfg w =
     (case perform en GroupFetch w of
        (Threw e, w1) \<Rightarrow> (Threw e, w1)
      | (Returned, w1) \<Rightarrow>
          (let batches = fetched en w;
               w2 = record_event (Emit (FETCH (length batches))) w1
           in case runTasks en cfg batches w2 of
                (Threw e, w3) \<Rightarrow> (Threw e, w3)
              | (Returned, w3) \<Rightarrow>
                  (case autoCommitOffsets en cfg w3 of
                     (Threw e, w4) \<Rightarrow> (Threw e, w4)
                   | (Returned, w4) \<Rightarrow> perform en (Heartbeat (heartbeatInterval cfg)) w4)))"

subsection \<open>Retrier\<close>

text \<open>
  Modelled from the spec: the retrier (src/retry) is not part of the sources at hand.
  The spec distinguishes a retriable outcome (the retried function re-throws: the retrier
  waits and calls it again, up to the configured number of retries, and on exhaustion
  fails with the original error) from a fatal one (the function calls \<^verbatim>\<open>bail(e)\<close>:
  retrying is aborted and \<open>e\<close> propagates). The waiting time is not modelled; the wait is
  a point of suspension.
\<close>

datatype attempt = Done | Bailed kerror | Rethrown kerror

fun retryLoop ::
  "env \<Rightarrow> nat \<Rightarrow> nat \<Rightarrow> (nat \<Rightarrow> world \<Rightarrow> attempt \<times> world) \<Rightarrow> world \<Rightarrow> completion \<times> world" where
  "retryLoop en 0 retryCount fn w =
     (case fn retryCount w of
        (Done, w1) \<Rightarrow> (Returned, w1)
      | (Bailed e, w1) \<Rightarrow> (Threw e, w1)
      | (Rethrown e, w1) \<Rightarrow> (Threw e, w1))"
| "retryLoop en (Suc n) retryCount fn w =
     (case fn retryCount w of
        (Done, w1) \<Rightarrow> (Returned, w1)
      | (Bailed e, w1) \<Rightarrow> (Threw e, w1)
      | (Rethrown e, w1) \<Rightarrow>
          retryLoop en n (Suc retryCount) fn (snd (perform en (Backoff retryCount) w1)))"

definition retrier ::
  "env \<Rightarrow> config \<Rightarrow> (nat \<Rightarrow> world \<Rightarrow> attempt \<times> world) \<Rightarrow> world \<Rightarrow> completion \<times> world" where
  "retrier en cfg fn w = retryLoop en (retries cfg) 0 fn w"

subsection \<open>Runner: join, start, stop\<close>

definition isRebalancing :: "kerror \<Rightarrow> bool" where
  "isRebalancing e = (e_type e = ''REBALANCE_IN_PROGRESS'' \<or> e_type e = ''NOT_COORDINATOR_FOR_GROUP'')"

text \<open>
  Modelled from the spec: \<^verbatim>\<open>KafkaJSError\<close> (src/errors.js) is not part of the sources at
  hand; \<^verbatim>\<open>new KafkaJSError(msg)\<close> is an instance of the class, with no \<^verbatim>\<open>type\<close>.
\<close>

definition newKafkaJSError :: "string \<Rightarrow> kerror" where
  "newKafkaJSError msg = \<lparr>e_name = ''KafkaJSError'', e_type = '''', e_message = msg, e_kafkajs = True\<rparr>"

definition joinCatch :: "kerror \<Rightarrow> world \<Rightarrow> attempt \<times> world" where
  "joinCatch e w =
     (if isRebalancing e then (Rethrown (newKafkaJSError ''The group is rebalancing''), w)
      else (Bailed e, w))"

text \<open>
  The \<^verbatim>\<open>try\<close> block of \<^verbatim>\<open>join\<close> goes on after \<^verbatim>\<open>this.running = true\<close>: it
  calls \<^verbatim>\<open>consumerGroup.isLeader()\<close>, the instrumentation emitter, which runs the
  listeners of the owner inside the call, and the logger. Whatever any of them throws is
  caught by the same \<^verbatim>\<open>catch\<close> as a failure of the group, with \<^verbatim>\<open>running\<close>
  already set. These three calls are therefore asked of the environment like the awaited
  ones: what the called code did, and whether it returned or threw. (Elsewhere a logger
  call or an emit is recorded as an event and taken to return.)
\<close>

definition emit :: "env \<Rightarrow> instr \<Rightarrow> world \<Rightarrow> completion \<times> world" where
  "emit en i w = perform en (Listeners i) (record_event (Emit i) w)"

definition loggerInfo :: "env \<Rightarrow> string \<Rightarrow> world \<Rightarrow> completion \<times> world" where
  "loggerInfo en msg w = perform en (Logger LInfo msg) (record_event (Log LInfo msg) w)"

definition joinAttempt :: "env \<Rightarrow> nat \<Rightarrow> world \<Rightarrow> attempt \<times> world" where
  "joinAttempt en retryCount w =
     (case perform en GroupJoin w of
        (Threw e, w1) \<Rightarrow> joinCatch e w1
      | (Returned, w1) \<Rightarrow>
          (case perform en GroupSync w1 of
             (Threw e, w2) \<Rightarrow> joinCatch e w2
           | (Returned, w2) \<Rightarrow>
               (let w3 = record_event (SetRunning True) (w2\<lparr>running := True\<rparr>)
                in case perform en IsLeader w3 of
                     (Threw e, w4) \<Rightarrow> joinCatch e w4
                   | (Returned, w4) \<Rightarrow>
                       (case emit en (GROUP_JOIN (memberId w3)) w4 of
                          (Threw e, w5) \<Rightarrow> joinCatch e w5
                        | (Returned, w5) \<Rightarrow>
                            (case loggerInfo en ''Consumer has joined the group'' w5 of
                               (Threw e, w6) \<Rightarrow> joinCatch e w6
                             | (Returned, w6) \<Rightarrow> (Done, w6))))))"

text \<open>
  \<^verbatim>\<open>join\<close> is always awaited (lines 86, 305 and 320): the flow that awaits it resumes
  in a later turn of the event loop than the one in which the retried function ended, and
  other code may run in between. The result of \<open>join\<close> is the one its caller resumes
  with.
\<close>

definition join :: "env \<Rightarrow> config \<Rightarrow> world \<Rightarrow> completion \<times> world" where
  "join en cfg w =
     (case retrier en cfg (joinAttempt en) w of
        (r, w1) \<Rightarrow> (r, interfere (resumption en w1) w1))"

text \<open>
  \<^verbatim>\<open>onCrash\<close> is a callback of the owner; the Runner does not await it and does not
  observe how it ends.
\<close>

definition onCrash :: "env \<Rightarrow> kerror \<Rightarrow> world \<Rightarrow> world" where
  "onCrash en e w = snd (perform en (OnCrash e) w)"

text \<open>
  \<^verbatim>\<open>start\<close> resumes after \<^verbatim>\<open>await this.join()\<close> in the world that \<open>join\<close>
  returns, which includes what other code did before the resumption: a \<^verbatim>\<open>stop()\<close>
  called in between finds \<^verbatim>\<open>running\<close> true (line 52) and sets it to false, and line 88
  sets it to true again. \<^verbatim>\<open>this.scheduleFetch()\<close> is called without \<^verbatim>\<open>await\<close>: the
  fetch loop goes on as a flow of its own. The call is recorded as an event; the loop
  itself is \<open>scheduleFetch\<close> below, applied again for each recorded re-entry.
\<close>

definition start :: "env \<Rightarrow> config \<Rightarrow> world \<Rightarrow> world" where
  "start en cfg w =
     (if running w then w
      else
        (case join en cfg w of
           (Returned, w1) \<Rightarrow>
             record_event (ScheduleFetch Direct)
               (record_event (SetRunning True) (w1\<lparr>running := True\<rparr>))
         | (Threw e, w1) \<Rightarrow> onCrash en e w1))"

text \<open>
  \<^verbatim>\<open>waitForConsumer\<close> polls \<^verbatim>\<open>consuming\<close> once per second and may poll forever; the
  fuel bounds the number of polls, and \<open>None\<close> is a wait that has not ended yet. While
  \<^verbatim>\<open>stop\<close> waits, the fetch loop goes on: it writes \<^verbatim>\<open>consuming\<close> and, when it
  re-joins, \<^verbatim>\<open>running\<close>; both arrive as actions of the environment during the timer.
\<close>

fun scheduleWait :: "nat \<Rightarrow> env \<Rightarrow> world \<Rightarrow> world option" where
  "scheduleWait 0 en w = None"
| "scheduleWait (Suc n) en w =
     (let w1 = record_event (Log LDebug ''waiting for consumer to finish...'') w;
          w2 = snd (perform en (Timeout 1000) w1)
      in if \<not> consuming w2 then Some w2 else scheduleWait n en w2)"

definition waitForConsumer :: "nat \<Rightarrow> env \<Rightarrow> world \<Rightarrow> world option" where
  "waitForConsumer fuel en w = (if \<not> consuming w then Some w else scheduleWait fuel en w)"

definition stop :: "nat \<Rightarrow> env \<Rightarrow> config \<Rightarrow> world \<Rightarrow> (completion \<times> world) option" where
  "stop fuel en cfg w =
     (if \<not> running w then Some (Returned, w)
      else
        (let w1 = record_event (Log LDebug ''stop consumer group'') w;
             w2 = record_event (SetRunning False) (w1\<lparr>running := False\<rparr>)
         in case (if \<not> isTestMode cfg then waitForConsumer fuel en w2 else Some w2) of
              None \<Rightarrow> None
            | Some w3 \<Rightarrow> Some (Returned, snd (perform en GroupLeave w3))))"

subsection \<open>Runner: the fetch loop\<close>

definition rejoinAndReenter :: "env \<Rightarrow> config \<Rightarrow> world \<Rightarrow> attempt \<times> world" where
  "rejoinAndReenter en cfg w =
     (case join en cfg w of
        (Threw e, w1) \<Rightarrow> (Rethrown e, w1)
      | (Returned, w1) \<Rightarrow> (Done, record_event (ScheduleFetch Direct) w1))"

definition scheduleFetchCatch :: "env \<Rightarrow> config \<Rightarrow> kerror \<Rightarrow> world \<Rightarrow> attempt \<times> world" where
  "scheduleFetchCatch en cfg e w =
     (if \<not> running w then (Done, record_event (Log LDebug ''consumer not running, exiting'') w)
      else if isRebalancing e then
        rejoinAndReenter en cfg (record_event (Log LError ''The group is rebalancing, re-joining'') w)
      else if e_type e = ''UNKNOWN_MEMBER_ID'' then
        (let w1 = record_event
                    (Log LError ''The coordinator is not aware of this member, re-joining the group'') w;
             w2 = record_event SetMemberIdNull (w1\<lparr>memberId := None\<rparr>)
         in rejoinAndReenter en cfg w2)
      else if e_name e = ''KafkaJSOffsetOutOfRange'' then
        (Done, record_event (ScheduleFetch Direct) w)
      else if e_name e = ''KafkaJSNotImplemented'' then (Bailed e, w)
      else (Rethrown e, record_event (Log LDebug ''Error while fetching data, trying again...'') w))"

definition setConsuming :: "bool \<Rightarrow> world \<Rightarrow> world" where
  "setConsuming b w = record_event (SetConsuming b) (w\<lparr>consuming := b\<rparr>)"

definition scheduleFetchAttempt :: "env \<Rightarrow> config \<Rightarrow> nat \<Rightarrow> world \<Rightarrow> attempt \<times> world" where
  "scheduleFetchAttempt en cfg retryCount w =
     (case (case fetch en cfg (setConsuming True w) of
              (Returned, w1) \<Rightarrow>
                (Done, record_event (ScheduleFetch Immediate) (setConsuming False w1))
            | (Threw e, w1) \<Rightarrow> scheduleFetchCatch en cfg e w1) of
        (a, w2) \<Rightarrow> (a, setConsuming False w2))"

definition scheduleFetch :: "env \<Rightarrow> config \<Rightarrow> world \<Rightarrow> world" where
  "scheduleFetch en cfg w =
     (if \<not> running w then record_event (Log LDebug ''consumer not running, exiting'') w
      else
        (case retrier en cfg (scheduleFetchAttempt en cfg) w of
           (Returned, w1) \<Rightarrow> w1
         | (Threw e, w1) \<Rightarrow> onCrash en e w1))"

subsection \<open>Concurrency limiter\<close>

text \<open>
  Modelled from the spec: the limiter (src/utils/concurrency.js) is not part of the sources
  at hand. The spec's contract: given a limit, admit at most that many tasks at a time and
  queue the rest in FIFO order; each call returns a future that completes when the wrapped
  task completes, with its value or its error; a rejected task releases its slot at once,
  so that the next queued task starts, and the rejection propagates unchanged. A task is
  followed from its admission to its completion; \<open>started\<close> records the order of
  admission and \<open>settled\<close> what each future completed with.
\<close>

record 'a limiter =
  limit :: nat
  inFlight :: "'a list"
  waiting :: "'a list"
  started :: "'a list"
  settled :: "('a \<times> completion) list"

definition limitConcurrency :: "nat \<Rightarrow> 'a limiter" where
  "limitConcurrency l = \<lparr>limit = l, inFlight = [], waiting = [], started = [], settled = []\<rparr>"

definition submit :: "'a \<Rightarrow> 'a limiter \<Rightarrow> 'a limiter" where
  "submit t s =
     (if length (inFlight s) < limit s
      then s\<lparr>inFlight := inFlight s @ [t], started := started s @ [t]\<rparr>
      else s\<lparr>waiting := waiting s @ [t]\<rparr>)"

definition admitNext :: "'a limiter \<Rightarrow> 'a limiter" where
  "admitNext s =
     (case waiting s of
        [] \<Rightarrow> s
      | t # q \<Rightarrow> s\<lparr>waiting := q, inFlight := inFlight s @ [t], started := started s @ [t]\<rparr>)"

definition complete :: "'a \<Rightarrow> completion \<Rightarrow> 'a limiter \<Rightarrow> 'a limiter" where
  "complete t r s =
     (if t \<in> set (inFlight s)
      then admitNext (s\<lparr>inFlight := remove1 t (inFlight s), settled := settled s @ [(t, r)]\<rparr>)
      else s)"

text \<open>What happens to a limiter: a task is handed to it, or a task in flight completes.\<close>

datatype 'a limiterEvent = Submit 'a | Complete 'a completion

fun limiterStep :: "'a limiterEvent \<Rightarrow> 'a limiter \<Rightarrow> 'a limiter" where
  "limiterStep (Submit t) s = submit t s"
| "limiterStep (Complete t r) s = complete t r s"

definition limiterRun :: "'a limiterEvent list \<Rightarrow> 'a limiter \<Rightarrow> 'a limiter" where
  "limiterRun evs s = fold limiterStep evs s"

fun submitted :: "'a limiterEvent list \<Rightarrow> 'a list" where
  "submitted [] = []"
| "submitted (Submit t # evs) = t # submitted evs"
| "submitted (Complete t r # evs) = submitted evs"

text \<open>
  \<^verbatim>\<open>fetch\<close> creates one limiter per cycle, with the limit
  \<^verbatim>\<open>partitionsConsumedConcurrently\<close>, and hands it one task per batch, in fetch order.
\<close>

definition fanOut :: "config \<Rightarrow> batch list \<Rightarrow> batch limiter" where
  "fanOut cfg batches = fold submit batches (limitConcurrency (partitionsConsumedConcurrently cfg))"

section \<open>Observing an execution\<close>

text \<open>
  The events an operation added to the trace, and the statement that an operation only
  appended events of a given kind.
\<close>

definition new_events :: "world \<Rightarrow> world \<Rightarrow> event list" where
  "new_events w w' = drop (length (trace w)) (trace w')"

text \<open>
  The value of \<^verbatim>\<open>running\<close> after a sequence of events, from its value before: the
  writes of the flow that is followed, the calls of \<^verbatim>\<open>stop()\<close> made meanwhile and the
  writes of the other flows are the only events that change it. \<open>rises\<close> and \<open>falls\<close>
  count the transitions from false to true and from true to false that the writes of the
  followed flow make along the way; what the other flows do meanwhile is followed for the
  value only.
\<close>

fun runningAfter :: "bool \<Rightarrow> event list \<Rightarrow> bool" where
  "runningAfter b [] = b"
| "runningAfter b (SetRunning b' # evs) = runningAfter b' evs"
| "runningAfter b (Env StopCalled # evs) = runningAfter False evs"
| "runningAfter b (Env RunningRaised # evs) = runningAfter True evs"
| "runningAfter b (ev # evs) = runningAfter b evs"

fun rises :: "bool \<Rightarrow> event list \<Rightarrow> nat" where
  "rises b [] = 0"
| "rises b (SetRunning b' # evs) = (if \<not> b \<and> b' then 1 else 0) + rises b' evs"
| "rises b (Env StopCalled # evs) = rises False evs"
| "rises b (Env RunningRaised # evs) = rises True evs"
| "rises b (ev # evs) = rises b evs"

fun falls :: "bool \<Rightarrow> event list \<Rightarrow> nat" where
  "falls b [] = 0"
| "falls b (SetRunning b' # evs) = (if b \<and> \<not> b' then 1 else 0) + falls b' evs"
| "falls b (Env StopCalled # evs) = falls False evs"
| "falls b (Env RunningRaised # evs) = falls True evs"
| "falls b (ev # evs) = falls b evs"

text \<open>The calls of \<^verbatim>\<open>stop()\<close> that other code made while a flow was followed.\<close>

definition stopCalls :: "event list \<Rightarrow> nat" where
  "stopCalls evs = length (filter (\<lambda>ev. ev = Env StopCalled) evs)"

text \<open>
  An operation took \<open>w\<close> to \<open>w'\<close> by appending events of kind \<open>P\<close> only, and the
  appended events account for the value of \<^verbatim>\<open>running\<close>.
\<close>

definition grows :: "(event \<Rightarrow> bool) \<Rightarrow> world \<Rightarrow> world \<Rightarrow> bool" where
  "grows P w w' =
     (take (length (trace w)) (trace w') = trace w \<and> list_all P (new_events w w') \<and>
      running w' = runningAfter (running w) (new_events w w'))"

text \<open>Events that write no field of the Runner and schedule nothing.\<close>

fun inert :: "event \<Rightarrow> bool" where
  "inert (SetRunning b) = False"
| "inert (SetConsuming b) = False"
| "inert SetMemberIdNull = False"
| "inert (ScheduleFetch k) = False"
| "inert ev = True"

text \<open>The events of message-at-a-time processing.\<close>

fun messageModeEvent :: "event \<Rightarrow> bool" where
  "messageModeEvent (Called (EachMessage t p m) r) = True"
| "messageModeEvent (Called (Heartbeat n) r) = True"
| "messageModeEvent (Called (CommitOffsets None) r) = True"
| "messageModeEvent (Called CommitOffsetsIfNecessary r) = True"
| "messageModeEvent (Resolve t p off) = True"
| "messageModeEvent (Log l s) = True"
| "messageModeEvent (Env a) = True"
| "messageModeEvent ev = False"

text \<open>A commit request sent to the group, of either kind.\<close>

fun commitCall :: "event \<Rightarrow> bool" where
  "commitCall (Called (CommitOffsets offs) r) = True"
| "commitCall (Called CommitOffsetsIfNecessary r) = True"
| "commitCall ev = False"

text \<open>
  The cursor of a partition lies before a batch: the offsets of the batch increase
  strictly, what was resolved before is below every offset of the batch, and what was
  committed before is at most every offset of the batch (a committed value is the offset
  to read next).
\<close>

definition cursorBefore :: "world \<Rightarrow> topic \<Rightarrow> partition \<Rightarrow> message list \<Rightarrow> bool" where
  "cursorBefore w t p ms =
     (sorted_wrt (<) (map offset ms) \<and>
      list_all (\<lambda>m. (case resolved w (t, p) of None \<Rightarrow> True | Some r \<Rightarrow> r < offset m) \<and>
                     (case committed w (t, p) of None \<Rightarrow> True | Some c \<Rightarrow> c \<le> offset m)) ms)"

text \<open>Events that are no call and no write: log lines and actions of the rest of the program.\<close>

fun silent :: "event \<Rightarrow> bool" where
  "silent (Log l s) = True"
| "silent (Env a) = True"
| "silent ev = False"

text \<open>Offsets marked as ready to commit.\<close>

fun isResolve :: "event \<Rightarrow> bool" where
  "isResolve (Resolve t p off) = True"
| "isResolve ev = False"

text \<open>The events of \<^verbatim>\<open>join\<close>, of the fetch loop and of \<^verbatim>\<open>stop\<close>, as far as \<^verbatim>\<open>running\<close> goes.\<close>

definition joinEvent :: "event \<Rightarrow> bool" where
  "joinEvent ev = (inert ev \<or> ev = SetRunning True)"

definition loopEvent :: "event \<Rightarrow> bool" where
  "loopEvent ev = (ev \<noteq> SetRunning False)"

definition stopEvent :: "event \<Rightarrow> bool" where
  "stopEvent ev = (inert ev \<or> ev = SetRunning False)"

text \<open>What \<^verbatim>\<open>waitForConsumer\<close> does while it polls: a log line, the timer of one second.\<close>

fun waitEvent :: "event \<Rightarrow> bool" where
  "waitEvent (Log l s) = True"
| "waitEvent (Env a) = True"
| "waitEvent (Called (Timeout n) r) = (n = 1000)"
| "waitEvent ev = False"

text \<open>The world after the first two statements of a \<^verbatim>\<open>stop\<close> that found the Runner running.\<close>

definition stopping :: "world \<Rightarrow> world" where
  "stopping w = record_event (SetRunning False) ((record_event (Log LDebug ''stop consumer group'') w)\<lparr>running := False\<rparr>)"

text \<open>
  One round of \<^verbatim>\<open>scheduleWait\<close>, the log line and the timer of one second, and the
  world in which the \<open>n\<close>-th timer fires.
\<close>

definition pollOnce :: "env \<Rightarrow> world \<Rightarrow> world" where
  "pollOnce en w =
     snd (perform en (Timeout 1000) (record_event (Log LDebug ''waiting for consumer to finish...'') w))"

primrec polled :: "nat \<Rightarrow> env \<Rightarrow> world \<Rightarrow> world" where
  "polled 0 en w = w"
| "polled (Suc n) en w = polled n en (pollOnce en w)"

text \<open>
  The error taxonomy of the scheduler as the specification gives it, checked in order after
  the \<^verbatim>\<open>running\<close> check: the reaction the specification prescribes for an error of a
  fetch cycle.
\<close>

datatype reaction =
    CleanExit
  | RejoinReenter
  | ClearMemberRejoinReenter
  | SwallowReenter
  | BailOut
  | Rethrow

definition classifyFetchError :: "bool \<Rightarrow> kerror \<Rightarrow> reaction" where
  "classifyFetchError isRunning e =
     (if \<not> isRunning then CleanExit
      else if e_type e = ''REBALANCE_IN_PROGRESS'' \<or> e_type e = ''NOT_COORDINATOR_FOR_GROUP''
        then RejoinReenter
      else if e_type e = ''UNKNOWN_MEMBER_ID'' then ClearMemberRejoinReenter
      else if e_name e = ''KafkaJSOffsetOutOfRange'' then SwallowReenter
      else if e_name e = ''KafkaJSNotImplemented'' then BailOut
      else Rethrow)"

text \<open>
  The limiter never holds more tasks in flight than its limit, and has tasks waiting only
  while it is full.
\<close>

definition limiterInv :: "'a limiter \<Rightarrow> bool" where
  "limiterInv s = (length (inFlight s) \<le> limit s \<and> (waiting s = [] \<or> length (inFlight s) = limit s))"

text \<open>Heartbeats sent to the group.\<close>

fun isHeartbeat :: "event \<Rightarrow> bool" where
  "isHeartbeat (Called (Heartbeat n) r) = True"
| "isHeartbeat ev = False"

section \<open>Concrete scenarios\<close>

definition liveWorld :: world where
  "liveWorld =
     \<lparr>running = True, consuming = False, memberId = Some ''member-1'',
      resolved = Map.empty, committed = Map.empty, seekOffsets = Map.empty, trace = []\<rparr>"

definition quietEnv :: env where
  "quietEnv =
     \<lparr>respond = (\<lambda>c w. ([], Returned)), fetched = (\<lambda>w. []),
      commitDue = (\<lambda>w. False), assignedMember = (\<lambda>w. ''member-1''),
      resumption = (\<lambda>w. [])\<rparr>"

definition msgAt :: "int \<Rightarrow> message" where
  "msgAt n = \<lparr>offset = n, msg_key = ''k'', msg_value = ''v''\<rparr>"

definition batch10 :: batch where
  "batch10 = \<lparr>b_topic = ''t'', b_partition = 0, highWatermark = 12, messages = [msgAt 10, msgAt 11]\<rparr>"

definition userError :: kerror where
  "userError = \<lparr>e_name = ''Error'', e_type = '''', e_message = ''boom'', e_kafkajs = False\<rparr>"

definition handlerOk :: "topic \<Rightarrow> partition \<Rightarrow> message \<Rightarrow> world \<Rightarrow> response" where
  "handlerOk t p m w = ([], Returned)"

definition handlerFailsAt :: "int \<Rightarrow> topic \<Rightarrow> partition \<Rightarrow> message \<Rightarrow> world \<Rightarrow> response" where
  "handlerFailsAt k t p m w = ([], if offset m = k then Threw userError else Returned)"

definition noHandlers :: config where
  "noHandlers =
     \<lparr>eachBatchAutoResolve = True, partitionsConsumedConcurrently = 1, eachBatch = None,
      eachMessage = None, heartbeatInterval = 3000, retries = 0, autoCommit = True,
      isTestMode = False\<rparr>"

definition bothHandlers :: config where
  "bothHandlers = noHandlers\<lparr>eachBatch := Some (\<lambda>b w. HReturn), eachMessage := Some handlerOk\<rparr>"

definition manualCommit :: config where
  "manualCommit = noHandlers\<lparr>eachMessage := Some (handlerFailsAt 11), autoCommit := False\<rparr>"

text \<open>
  A batch handler that looks at \<^verbatim>\<open>isStale()\<close> first and returns at once when the batch
  is stale; a seek that is pending, and a seek that arrives while the fetch request is in
  flight.
\<close>

definition staleAware :: "batch \<Rightarrow> world \<Rightarrow> hprog" where
  "staleAware b w = HIsStale (\<lambda>stale. if stale then HReturn else HResolveOffset (lastOffset b) HReturn)"

definition batchMode :: config where
  "batchMode = noHandlers\<lparr>eachBatch := Some staleAware\<rparr>"

definition seekWorld :: world where
  "seekWorld = liveWorld\<lparr>seekOffsets := [(''t'', 0) \<mapsto> 50]\<rparr>"

definition seekDuringFetch :: env where
  "seekDuringFetch =
     quietEnv\<lparr>respond := (\<lambda>c w. (if c = GroupFetch then [SeekCalled ''t'' 0 50] else [], Returned)),
              fetched := (\<lambda>w. [batch10])\<rparr>"

text \<open>
  Errors of the group, environments in which one call fails or \<^verbatim>\<open>stop()\<close> is called
  while a re-join is in flight, and a \<^verbatim>\<open>stop\<close> that waits for a cycle to end.
\<close>

definition busyWorld :: world where
  "busyWorld = liveWorld\<lparr>consuming := True\<rparr>"

definition cycleEnds :: env where
  "cycleEnds =
     quietEnv\<lparr>respond := (\<lambda>c w. if c = Timeout 1000 then ([ConsumingSet False], Returned)
                                else if c = GroupLeave then ([], Threw userError)
                                else ([], Returned))\<rparr>"

definition stoppedWorld :: world where
  "stoppedWorld =
     snd (perform cycleEnds GroupLeave
        (snd (perform cycleEnds (Timeout 1000)
           (record_event (Log LDebug ''waiting for consumer to finish...'') (stopping busyWorld)))))"

definition rebalanceError :: kerror where
  "rebalanceError =
     \<lparr>e_name = ''KafkaJSProtocolError'', e_type = ''REBALANCE_IN_PROGRESS'',
      e_message = ''The group is rebalancing, so a rejoin is needed'', e_kafkajs = True\<rparr>"

definition notImplemented :: kerror where
  "notImplemented =
     \<lparr>e_name = ''KafkaJSNotImplemented'', e_type = '''', e_message = ''not implemented'',
      e_kafkajs = True\<rparr>"

definition fetchFails :: "kerror \<Rightarrow> env" where
  "fetchFails e = quietEnv\<lparr>respond := (\<lambda>c w. ([], if c = GroupFetch then Threw e else Returned))\<rparr>"

definition stopDuringRejoin :: env where
  "stopDuringRejoin =
     quietEnv\<lparr>respond := (\<lambda>c w. if c = GroupFetch then ([], Threw rebalanceError)
                                else if c = GroupJoin then ([StopCalled], Returned)
                                else ([], Returned))\<rparr>"

definition idleWorld :: world where
  "idleWorld = liveWorld\<lparr>running := False\<rparr>"

definition joinFails :: "kerror \<Rightarrow> env" where
  "joinFails e = quietEnv\<lparr>respond := (\<lambda>c w. ([], if c = GroupJoin then Threw e else Returned))\<rparr>"

text \<open>
  A partition whose cursor stands at resolved 9, committed 5, a handler that fails on the
  first message of the batch, and a group that rejects the commit because it is
  rebalancing.
\<close>

definition midWorld :: world where
  "midWorld = liveWorld\<lparr>resolved := [(''t'', 0) \<mapsto> 9], committed := [(''t'', 0) \<mapsto> 5]\<rparr>"

definition failsFirst :: config where
  "failsFirst = noHandlers\<lparr>eachMessage := Some (handlerFailsAt 10)\<rparr>"

definition commitFails :: env where
  "commitFails =
     quietEnv\<lparr>respond := (\<lambda>c w. ([], if c = CommitOffsets None then Threw rebalanceError else Returned))\<rparr>"

text \<open>
  A listener of GROUP_JOIN that throws; a \<^verbatim>\<open>stop()\<close> called between the end of the
  join and the resumption of \<^verbatim>\<open>start\<close>; a cycle that ends only while the second timer of
  \<^verbatim>\<open>stop\<close> runs; and a cycle that fails, re-joins and ends while the first timer of
  \<^verbatim>\<open>stop\<close> runs. (In \<open>quietEnv\<close> a cycle in flight never ends.)
\<close>

definition listenerFails :: env where
  "listenerFails =
     quietEnv\<lparr>respond := (\<lambda>c w. ([], if c = Listeners (GROUP_JOIN (Some ''member-1''))
                                       then Threw userError else Returned))\<rparr>"

definition stopBeforeResume :: env where
  "stopBeforeResume = quietEnv\<lparr>resumption := (\<lambda>w. [StopCalled])\<rparr>"


definition rejoinedMeanwhile :: env where
  "rejoinedMeanwhile =
     quietEnv\<lparr>respond := (\<lambda>c w. if c = Timeout 1000 then ([RunningRaised, ConsumingSet False], Returned)
                                else ([], Returned))\<rparr>"

text \<open>A second batch, of another partition.\<close>

definition batch20 :: batch where
  "batch20 = \<lparr>b_topic = ''t'', b_partition = 1, highWatermark = 22, messages = [msgAt 20, msgAt 21]\<rparr>"

section \<open>Properties\<close>

subsection \<open>Basic facts about the trace and the cursor\<close>

lemma new_events_append: "trace w' = trace w @ evs \<Longrightarrow> new_events w w' = evs"
  by (simp add: new_events_def)

lemma record_event_simps [simp]:
  "trace (record_event ev w) = trace w @ [ev]"
  "running (record_event ev w) = running w"
  "consuming (record_event ev w) = consuming w"
  "memberId (record_event ev w) = memberId w"
  "resolved (record_event ev w) = resolved w"
  "committed (record_event ev w) = committed w"
  "seekOffsets (record_event ev w) = seekOffsets w"
  by (simp_all add: record_event_def)

lemma interfere1_simps [simp]:
  "trace (interfere1 a w) = trace w @ [Env a]"
  "resolved (interfere1 a w) = resolved w"
  "committed (interfere1 a w) = committed w"
  "memberId (interfere1 a w) = memberId w"
  by (cases a; simp)+

lemma interfere_Nil [simp]: "interfere [] w = w"
  by (simp add: interfere_def)

lemma interfere_Cons [simp]: "interfere (a # acts) w = interfere acts (interfere1 a w)"
  by (simp add: interfere_def)

lemma trace_interfere [simp]: "trace (interfere acts w) = trace w @ map Env acts"
  by (induction acts arbitrary: w) simp_all

lemma cursor_interfere [simp]:
  "resolved (interfere acts w) = resolved w"
  "committed (interfere acts w) = committed w"
  "memberId (interfere acts w) = memberId w"
  by (induction acts arbitrary: w; simp)+

lemma runningAfter_Env_Cons:
  "runningAfter b (Env a # evs) = runningAfter (runningAfter b [Env a]) evs"
  by (cases a) simp_all

lemma running_interfere1: "running (interfere1 a w) = runningAfter (running w) [Env a]"
  by (cases a) simp_all

lemma running_interfere: "running (interfere acts w) = runningAfter (running w) (map Env acts)"
proof (induction acts arbitrary: w)
  case Nil
  show ?case by simp
next
  case (Cons a acts)
  show ?case
    using Cons.IH [of "interfere1 a w"] runningAfter_Env_Cons [of "running w" a "map Env acts"]
    by (simp add: running_interfere1)
qed

lemma hasSeekOffset_interfere1: "hasSeekOffset w t p \<Longrightarrow> hasSeekOffset (interfere1 a w) t p"
  by (cases a) (simp_all add: hasSeekOffset_def)

lemma hasSeekOffset_interfere: "hasSeekOffset w t p \<Longrightarrow> hasSeekOffset (interfere acts w) t p"
  by (induction acts arbitrary: w) (simp_all add: hasSeekOffset_interfere1)

lemma trace_effect [simp]: "trace (effect en c w) = trace w"
  by (cases "(en, c, w)" rule: effect.cases) (simp_all add: commitResolved_def commitGiven_def)

lemma running_effect [simp]: "running (effect en c w) = running w"
  by (cases "(en, c, w)" rule: effect.cases) (simp_all add: commitResolved_def commitGiven_def)

lemma consuming_effect [simp]: "consuming (effect en c w) = consuming w"
  by (cases "(en, c, w)" rule: effect.cases) (simp_all add: commitResolved_def commitGiven_def)

lemma resolved_effect [simp]: "resolved (effect en c w) = resolved w"
  by (cases "(en, c, w)" rule: effect.cases) (simp_all add: commitResolved_def commitGiven_def)

lemma seekOffsets_effect [simp]: "seekOffsets (effect en c w) = seekOffsets w"
  by (cases "(en, c, w)" rule: effect.cases) (simp_all add: commitResolved_def commitGiven_def)

lemma fst_settle [simp]: "fst (settle c r eff w) = snd r"
  by (simp add: settle_def Let_def)

lemma fst_perform [simp]: "fst (perform en c w) = snd (respond en c w)"
  by (simp add: perform_def)

lemma trace_perform:
  "trace (snd (perform en c w)) = trace w @ map Env (fst (respond en c w)) @ [Called c (snd (respond en c w))]"
  by (simp add: perform_def settle_def Let_def split: completion.splits)

lemma resolved_perform [simp]: "resolved (snd (perform en c w)) = resolved w"
  by (simp add: perform_def settle_def Let_def split: completion.splits)

lemma running_perform:
  "running (snd (perform en c w)) = runningAfter (running w) (map Env (fst (respond en c w)))"
  by (simp add: perform_def settle_def Let_def running_interfere split: completion.splits)

lemma runningAfter_append: "runningAfter b (xs @ ys) = runningAfter (runningAfter b xs) ys"
  by (induction b xs rule: runningAfter.induct) simp_all

lemma growsI:
  "trace w' = trace w @ evs \<Longrightarrow> list_all P evs \<Longrightarrow> running w' = runningAfter (running w) evs \<Longrightarrow>
   grows P w w'"
  by (simp add: grows_def new_events_def)

lemma growsD:
  "grows P w w' \<Longrightarrow>
   \<exists>evs. trace w' = trace w @ evs \<and> list_all P evs \<and> running w' = runningAfter (running w) evs"
  unfolding grows_def new_events_def
  by (metis append_take_drop_id)

lemma grows_refl [simp]: "grows P w w"
  by (simp add: grows_def new_events_def)

lemma grows_trans: "grows P w w1 \<Longrightarrow> grows P w1 w2 \<Longrightarrow> grows P w w2"
  by (auto dest!: growsD intro!: growsI [where evs = "evs1 @ evs2" for evs1 evs2]
      simp: runningAfter_append)

lemma grows_mono: "grows P w w' \<Longrightarrow> (\<And>ev. P ev \<Longrightarrow> Q ev) \<Longrightarrow> grows Q w w'"
  by (auto dest!: growsD intro!: growsI simp: list_all_iff)

lemma grows_new_events: "grows P w w' \<Longrightarrow> ev \<in> set (new_events w w') \<Longrightarrow> P ev"
  by (simp add: grows_def list_all_iff)

lemma grows_running: "grows P w w' \<Longrightarrow> running w' = runningAfter (running w) (new_events w w')"
  by (simp add: grows_def)

lemma grows_trace: "grows P w w' \<Longrightarrow> trace w' = trace w @ new_events w w'"
  unfolding grows_def new_events_def by (metis append_take_drop_id)

lemma grows_record_event:
  "P ev \<Longrightarrow> (\<And>b. runningAfter b [ev] = b) \<Longrightarrow> grows P w (record_event ev w)"
  by (rule growsI [where evs = "[ev]"]) simp_all

lemma grows_setRunning:
  "P (SetRunning b) \<Longrightarrow> grows P w (record_event (SetRunning b) (w\<lparr>running := b\<rparr>))"
  by (rule growsI [where evs = "[SetRunning b]"]) simp_all

lemma grows_interfere: "(\<And>a. P (Env a)) \<Longrightarrow> grows P w (interfere acts w)"
  by (rule growsI [where evs = "map Env acts"])
     (simp_all add: list_all_iff running_interfere)

lemma grows_perform:
  "(\<And>a. P (Env a)) \<Longrightarrow> P (Called c (snd (respond en c w))) \<Longrightarrow> grows P w (snd (perform en c w))"
  by (rule growsI [OF trace_perform])
     (simp_all add: list_all_iff running_perform runningAfter_append)

lemma grows_resolveOffset: "P (Resolve t p off) \<Longrightarrow> grows P w (resolveOffset t p off w)"
  unfolding resolveOffset_def by (rule growsI [where evs = "[Resolve t p off]"]) simp_all

lemma trace_settle_id:
  "trace (snd (settle c r id w)) = trace w @ map Env (fst r) @ [Called c (snd r)]"
  by (simp add: settle_def Let_def split: completion.splits)

lemma running_settle_id:
  "running (snd (settle c r id w)) = runningAfter (running w) (map Env (fst r))"
  by (simp add: settle_def Let_def running_interfere split: completion.splits)

lemma grows_invokeEachMessage:
  "(\<And>a. P (Env a)) \<Longrightarrow> (\<And>r. P (Called (EachMessage t p m) r)) \<Longrightarrow>
   grows P w (snd (invokeEachMessage cfg t p m w))"
  unfolding invokeEachMessage_def
  by (auto split: option.splits intro!: growsI [OF trace_settle_id]
      simp: list_all_iff running_settle_id runningAfter_append)

lemma grows_logUnless: "P (Log LError msg) \<Longrightarrow> grows P w (logUnlessKafkaJSError e msg w)"
  by (simp add: logUnlessKafkaJSError_def grows_record_event)

lemma eachMessageLoop_break:
  "\<not> running w \<or> hasSeekOffset w t p \<Longrightarrow> eachMessageLoop en cfg t p (m # ms) w = (Returned, w)"
  by simp

lemma eachMessageLoop_threw:
  assumes "running w" "\<not> hasSeekOffset w t p" "invokeEachMessage cfg t p m w = (Threw e, w1)"
    and "perform en (CommitOffsets None) (logUnlessKafkaJSError e ''Error when calling eachMessage'' w1) = (c, w3)"
  shows "eachMessageLoop en cfg t p (m # ms) w = (case c of Returned \<Rightarrow> Threw e | Threw e' \<Rightarrow> Threw e', w3)"
  using assms by (simp split: completion.splits)

lemma eachMessageLoop_handled:
  assumes "running w" "\<not> hasSeekOffset w t p" "invokeEachMessage cfg t p m w = (Returned, w1)"
    and "perform en (Heartbeat (heartbeatInterval cfg)) (resolveOffset t p (offset m) w1) = (r3, w3)"
    and "perform en CommitOffsetsIfNecessary w3 = (r4, w4)"
  shows "eachMessageLoop en cfg t p (m # ms) w =
    (case r3 of Threw e \<Rightarrow> (Threw e, w3)
     | Returned \<Rightarrow> (case r4 of Threw e \<Rightarrow> (Threw e, w4) | Returned \<Rightarrow> eachMessageLoop en cfg t p ms w4))"
  using assms by (simp split: completion.splits)

lemma grows_eachMessageLoop:
  "grows messageModeEvent w (snd (eachMessageLoop en cfg t p ms w))"
proof (induction ms arbitrary: w)
  case Nil
  show ?case by simp
next
  case (Cons m ms)
  have inv: "grows messageModeEvent w (snd (invokeEachMessage cfg t p m w))" for w
    by (rule grows_invokeEachMessage) simp_all
  have per: "c \<in> {CommitOffsets None, Heartbeat n, CommitOffsetsIfNecessary} \<Longrightarrow>
      grows messageModeEvent w (snd (perform en c w))" for c n w
    by (rule grows_perform) auto
  show ?case
  proof (cases "\<not> running w \<or> hasSeekOffset w t p")
    case True
    then show ?thesis by (simp only: eachMessageLoop_break snd_conv grows_refl)
  next
    case False
    obtain r1 w1 where i: "invokeEachMessage cfg t p m w = (r1, w1)" by force
    have g1: "grows messageModeEvent w w1" using inv [of w] i by simp
    show ?thesis
    proof (cases r1)
      case (Threw e)
      let ?w2 = "logUnlessKafkaJSError e ''Error when calling eachMessage'' w1"
      obtain c w3 where p: "perform en (CommitOffsets None) ?w2 = (c, w3)" by force
      have g2: "grows messageModeEvent w1 ?w2" by (rule grows_logUnless) simp
      have g3: "grows messageModeEvent ?w2 w3"
        using per [of "CommitOffsets None" _ ?w2] p by simp
      have "eachMessageLoop en cfg t p (m # ms) w = (case c of Returned \<Rightarrow> Threw e | Threw e' \<Rightarrow> Threw e', w3)"
        using False i Threw by (intro eachMessageLoop_threw [OF _ _ _ p]) simp_all
      then have "snd (eachMessageLoop en cfg t p (m # ms) w) = w3" by simp
      then show ?thesis using grows_trans [OF g1 grows_trans [OF g2 g3]] by simp
    next
      case Returned
      let ?w2 = "resolveOffset t p (offset m) w1"
      obtain r3 w3 where p3: "perform en (Heartbeat (heartbeatInterval cfg)) ?w2 = (r3, w3)" by force
      obtain r4 w4 where p4: "perform en CommitOffsetsIfNecessary w3 = (r4, w4)" by force
      have g2: "grows messageModeEvent w1 ?w2" by (rule grows_resolveOffset) simp
      have g3: "grows messageModeEvent ?w2 w3" using per [of "Heartbeat (heartbeatInterval cfg)" _ ?w2] p3 by simp
      have g4: "grows messageModeEvent w3 w4" using per [of CommitOffsetsIfNecessary _ w3] p4 by simp
      have g5: "grows messageModeEvent w4 (snd (eachMessageLoop en cfg t p ms w4))"
        by (rule Cons.IH)
      have gw3: "grows messageModeEvent w w3" by (rule grows_trans [OF g1 grows_trans [OF g2 g3]])
      have gw4: "grows messageModeEvent w w4" by (rule grows_trans [OF gw3 g4])
      have gw5: "grows messageModeEvent w (snd (eachMessageLoop en cfg t p ms w4))" by (rule grows_trans [OF gw4 g5])
      have eq: "eachMessageLoop en cfg t p (m # ms) w =
         (case r3 of Threw e \<Rightarrow> (Threw e, w3)
          | Returned \<Rightarrow> (case r4 of Threw e \<Rightarrow> (Threw e, w4) | Returned \<Rightarrow> eachMessageLoop en cfg t p ms w4))"
        using False i Returned by (intro eachMessageLoop_handled [OF _ _ _ p3 p4]) simp_all
      show ?thesis unfolding eq using gw3 gw4 gw5 by (cases r3; cases r4; simp)
    qed
  qed
qed

lemma notBatchCall_messageMode: "messageModeEvent ev \<Longrightarrow> ev \<noteq> Called (EachBatch b') r"
  by (cases ev rule: messageModeEvent.cases) simp_all

lemma grows_processEachMessage: "grows messageModeEvent w (snd (processEachMessage en cfg b w))"
  unfolding processEachMessage_def by (rule grows_eachMessageLoop)

lemma new_events_trans:
  "grows P w w1 \<Longrightarrow> grows Q w1 w2 \<Longrightarrow> new_events w w2 = new_events w w1 @ new_events w1 w2"
  by (auto dest!: growsD simp: new_events_def)

lemma new_events_record_event [simp]: "new_events w (record_event ev w) = [ev]"
  by (simp add: new_events_def)

subsection \<open>Message-at-a-time processing: a handler that throws\<close>

lemma filter_isResolve_Env [simp]: "filter isResolve (map Env acts) = []"
  by (induction acts) simp_all


lemma committed_effect_heartbeat [simp]: "committed (effect en (Heartbeat n) w) = committed w"
  by simp

lemma committed_perform_heartbeat [simp]:
  "committed (snd (perform en (Heartbeat n) w)) = committed w"
  by (simp add: perform_def settle_def Let_def split: completion.splits)

lemma committed_perform_commit:
  "committed (snd (perform en (CommitOffsets None) w)) =
     (if snd (respond en (CommitOffsets None) w) = Returned
      then (\<lambda>tp. case resolved w tp of None \<Rightarrow> committed w tp | Some r \<Rightarrow> Some (r + 1))
      else committed w)"
  by (simp add: perform_def settle_def Let_def commitResolved_def split: completion.splits cong: option.case_cong)

lemma committed_perform_ifNecessary:
  "committed (snd (perform en CommitOffsetsIfNecessary w)) = committed w \<or>
   committed (snd (perform en CommitOffsetsIfNecessary w)) =
     (\<lambda>tp. case resolved w tp of None \<Rightarrow> committed w tp | Some r \<Rightarrow> Some (r + 1))"
  by (simp add: perform_def settle_def Let_def commitResolved_def split: completion.splits cong: option.case_cong)

lemma invokeEachMessage_frame [simp]:
  "resolved (snd (invokeEachMessage cfg t p m w)) = resolved w"
  "committed (snd (invokeEachMessage cfg t p m w)) = committed w"
  by (simp_all add: invokeEachMessage_def settle_def Let_def split: option.splits completion.splits)

lemma trace_invokeEachMessage:
  "\<exists>acts. trace (snd (invokeEachMessage cfg t p m w)) =
     trace w @ map Env acts @
       (if eachMessage cfg = None then []
        else [Called (EachMessage t p m) (fst (invokeEachMessage cfg t p m w))])"
proof (cases "eachMessage cfg")
  case None
  then show ?thesis by (simp add: invokeEachMessage_def)
next
  case (Some h)
  then show ?thesis
    by (auto simp: invokeEachMessage_def trace_settle_id)
qed

lemma logUnless_frame [simp]:
  "resolved (logUnlessKafkaJSError e msg w) = resolved w"
  "committed (logUnlessKafkaJSError e msg w) = committed w"
  "running (logUnlessKafkaJSError e msg w) = running w"
  by (simp_all add: logUnlessKafkaJSError_def)

lemma trace_logUnless:
  "trace (logUnlessKafkaJSError e msg w) = trace w @ (if e_kafkajs e then [] else [Log LError msg])"
  by (simp add: logUnlessKafkaJSError_def)

lemma resolveOffset_simps [simp]:
  "trace (resolveOffset t p off w) = trace w @ [Resolve t p off]"
  "resolved (resolveOffset t p off w) = (resolved w)((t, p) \<mapsto> off)"
  "committed (resolveOffset t p off w) = committed w"
  "running (resolveOffset t p off w) = running w"
  "seekOffsets (resolveOffset t p off w) = seekOffsets w"
  by (simp_all add: resolveOffset_def)

lemma cursorBefore_Cons:
  "cursorBefore w t p (m # ms) \<Longrightarrow>
     (\<forall>r. resolved w (t, p) = Some r \<longrightarrow> r < offset m) \<and>
     (\<forall>c. committed w (t, p) = Some c \<longrightarrow> c \<le> offset m) \<and>
     (\<forall>m' \<in> set ms. offset m < offset m') \<and> sorted_wrt (<) (map offset ms)"
  by (auto simp: cursorBefore_def split: option.splits)

lemma cursorBefore_step:
  assumes "cursorBefore w t p (m # ms)"
    and "resolved w' (t, p) = Some (offset m)"
    and "committed w' (t, p) = committed w (t, p) \<or> committed w' (t, p) = Some (offset m + 1)"
  shows "cursorBefore w' t p ms"
  using assms
  by (fastforce simp: cursorBefore_def list_all_iff split: option.splits)


lemma new_events_split:
  "trace w1 = trace w @ h \<Longrightarrow> trace w2 = trace w1 @ rest \<Longrightarrow> new_events w w2 = h @ new_events w1 w2"
  by (simp add: new_events_def)

lemma eachMessageLoop_thrown:
  assumes "eachMessageLoop en cfg t p ms w = (r, w')"
    and "Called (EachMessage t p m) (Threw e) \<in> set (new_events w w')"
  shows "\<exists>pre post c ms1 ms2.
      new_events w w' = pre @ Called (EachMessage t p m) (Threw e) # post @ [Called (CommitOffsets None) c]
      \<and> list_all silent post
      \<and> r = Threw (case c of Returned \<Rightarrow> e | Threw e' \<Rightarrow> e')
      \<and> ms = ms1 @ m # ms2
      \<and> filter isResolve pre = map (\<lambda>m'. Resolve t p (offset m')) ms1
      \<and> resolved w' (t, p) = (if ms1 = [] then resolved w (t, p) else Some (offset (last ms1)))
      \<and> (c = Returned \<longrightarrow>
           committed w' (t, p) =
             (case resolved w' (t, p) of None \<Rightarrow> committed w (t, p) | Some x \<Rightarrow> Some (x + 1)))
      \<and> (cursorBefore w t p ms \<longrightarrow>
           (\<forall>x. committed w' (t, p) = Some x \<longrightarrow> x \<le> offset m))
      \<and> (c = Returned \<longrightarrow> cursorBefore w t p ms \<longrightarrow>
           (\<forall>y. resolved w (t, p) = Some y \<longrightarrow> (\<exists>x. committed w' (t, p) = Some x \<and> y \<le> x)))"
  using assms
proof (induction ms arbitrary: w)
  case Nil
  then show ?case by (simp add: new_events_def)
next
  case (Cons m0 ms)
  let ?X = "Called (EachMessage t p m) (Threw e)"
  show ?case
  proof (cases "\<not> running w \<or> hasSeekOffset w t p")
    case True
    with Cons.prems show ?thesis by (simp add: new_events_def)
  next
    case False
    then have run: "running w" "\<not> hasSeekOffset w t p" by simp_all
    obtain r1 w1 where i: "invokeEachMessage cfg t p m0 w = (r1, w1)" by force
    have "\<exists>acts1. trace w1 = trace w @ map Env acts1 @
        (if eachMessage cfg = None then [] else [Called (EachMessage t p m0) r1])"
      using trace_invokeEachMessage [of cfg t p m0 w] unfolding i fst_conv snd_conv .
    then obtain acts1 where t1: "trace w1 = trace w @ map Env acts1 @
        (if eachMessage cfg = None then [] else [Called (EachMessage t p m0) r1])" ..
    have f1: "resolved w1 = resolved w" "committed w1 = committed w"
      using invokeEachMessage_frame [of cfg t p m0 w] i by simp_all
    show ?thesis
    proof (cases r1)
      case (Threw e1)
      let ?w2 = "logUnlessKafkaJSError e1 ''Error when calling eachMessage'' w1"
      obtain c w3 where p: "perform en (CommitOffsets None) ?w2 = (c, w3)" by force
      have c: "c = snd (respond en (CommitOffsets None) ?w2)"
        using fst_perform [of en "CommitOffsets None" ?w2] p by simp
      let ?post = "(if e_kafkajs e1 then [] else [Log LError ''Error when calling eachMessage''])
                    @ map Env (fst (respond en (CommitOffsets None) ?w2))"
      have t3: "trace w3 = trace w @ map Env acts1 @
          (if eachMessage cfg = None then [] else [Called (EachMessage t p m0) (Threw e1)])
          @ ?post @ [Called (CommitOffsets None) c]"
        using trace_perform [of en "CommitOffsets None" ?w2] p t1 Threw c
        by (simp add: trace_logUnless)
      have loop: "eachMessageLoop en cfg t p (m0 # ms) w =
          (case c of Returned \<Rightarrow> Threw e1 | Threw e' \<Rightarrow> Threw e', w3)"
        using i Threw by (intro eachMessageLoop_threw [OF run _ p]) simp
      with Cons.prems(1) have rw: "r = (case c of Returned \<Rightarrow> Threw e1 | Threw e' \<Rightarrow> Threw e')" "w' = w3"
        by simp_all
      have ne: "new_events w w' = map Env acts1 @
          (if eachMessage cfg = None then [] else [Called (EachMessage t p m0) (Threw e1)])
          @ ?post @ [Called (CommitOffsets None) c]"
        using t3 rw by (simp add: new_events_def)
      from Cons.prems(2) have same: "eachMessage cfg \<noteq> None" "m0 = m" "e1 = e"
        unfolding ne by (auto split: if_splits)
      have shape: "new_events w w' = map Env acts1 @ ?X # ?post @ [Called (CommitOffsets None) c]"
        using ne same by simp
      have sil: "list_all silent ?post" by (simp add: list_all_iff)
      have res: "r = Threw (case c of Returned \<Rightarrow> e | Threw e' \<Rightarrow> e')"
        using rw same by (cases c) simp_all
      have st: "\<forall>y. resolved w (t, p) = Some y \<longrightarrow> (\<exists>x. committed w' (t, p) = Some x \<and> y \<le> x)"
        if "c = Returned" and cb: "cursorBefore w t p (m0 # ms)"
      proof -
        have "committed w' = (\<lambda>tp. case resolved w tp of None \<Rightarrow> committed w tp | Some r \<Rightarrow> Some (r + 1))"
          using committed_perform_commit [of en ?w2] p c that(1) rw(2) f1
          by (simp cong: option.case_cong)
        then show ?thesis by (auto split: option.splits)
      qed
      have cf: "committed w' (t, p) = committed w (t, p)" if "c \<noteq> Returned"
        using committed_perform_commit [of en ?w2] p c that rw(2) f1 by simp
      have ub: "\<forall>x. committed w' (t, p) = Some x \<longrightarrow> x \<le> offset m"
        if cb: "cursorBefore w t p (m0 # ms)"
      proof (cases "c = Returned")
        case True
        have "committed w' = (\<lambda>tp. case resolved w tp of None \<Rightarrow> committed w tp | Some r \<Rightarrow> Some (r + 1))"
          using committed_perform_commit [of en ?w2] p c True rw(2) f1
          by (simp cong: option.case_cong)
        then show ?thesis
          using cursorBefore_Cons [OF cb] same by (auto split: option.splits)
      next
        case False
        from cf [OF this] cursorBefore_Cons [OF cb] same show ?thesis by auto
      qed
      have ex1: "resolved w' (t, p) = resolved w (t, p)"
        using resolved_perform [of en "CommitOffsets None" ?w2] p rw(2) f1 by simp
      have ex2: "committed w' (t, p) =
             (case resolved w' (t, p) of None \<Rightarrow> committed w (t, p) | Some x \<Rightarrow> Some (x + 1))"
        if "c = Returned"
        using committed_perform_commit [of en ?w2] p c that rw(2) f1 ex1
        by (simp cong: option.case_cong)
      show ?thesis
        using shape sil res same st ub ex1 ex2
        by (intro exI [of _ "map Env acts1"] exI [of _ ?post] exI [of _ c] exI [of _ "[]"] exI [of _ ms]) simp
    next
      case Returned
      let ?w2 = "resolveOffset t p (offset m0) w1"
      obtain r3 w3 where p3: "perform en (Heartbeat (heartbeatInterval cfg)) ?w2 = (r3, w3)" by force
      obtain r4 w4 where p4: "perform en CommitOffsetsIfNecessary w3 = (r4, w4)" by force
      have t3: "trace w3 = trace ?w2 @ map Env (fst (respond en (Heartbeat (heartbeatInterval cfg)) ?w2))
            @ [Called (Heartbeat (heartbeatInterval cfg)) r3]"
        using trace_perform [of en "Heartbeat (heartbeatInterval cfg)" ?w2]
          fst_perform [of en "Heartbeat (heartbeatInterval cfg)" ?w2] p3 by simp
      have t4: "trace w4 = trace w3 @ map Env (fst (respond en CommitOffsetsIfNecessary w3))
            @ [Called CommitOffsetsIfNecessary r4]"
        using trace_perform [of en CommitOffsetsIfNecessary w3]
          fst_perform [of en CommitOffsetsIfNecessary w3] p4 by simp
      let ?head = "map Env acts1 @
          (if eachMessage cfg = None then [] else [Called (EachMessage t p m0) Returned])
          @ [Resolve t p (offset m0)]
          @ map Env (fst (respond en (Heartbeat (heartbeatInterval cfg)) ?w2))
          @ [Called (Heartbeat (heartbeatInterval cfg)) r3]"
      let ?head4 = "?head @ map Env (fst (respond en CommitOffsetsIfNecessary w3))
            @ [Called CommitOffsetsIfNecessary r4]"
      have n3: "trace w3 = trace w @ ?head" using t3 t1 Returned by simp
      have n4: "trace w4 = trace w @ ?head4" using t4 n3 by simp
      have notin: "?X \<notin> set ?head4" by auto
      have loop: "eachMessageLoop en cfg t p (m0 # ms) w =
         (case r3 of Threw e \<Rightarrow> (Threw e, w3)
          | Returned \<Rightarrow> (case r4 of Threw e \<Rightarrow> (Threw e, w4) | Returned \<Rightarrow> eachMessageLoop en cfg t p ms w4))"
        using i Returned by (intro eachMessageLoop_handled [OF run _ p3 p4]) simp
      show ?thesis
      proof (cases "r3 = Returned \<and> r4 = Returned")
        case False
        then have "w' = w3 \<or> w' = w4"
          using loop Cons.prems(1) by (cases r3; cases r4) auto
        then have "set (new_events w w') \<subseteq> set ?head4"
          using n3 n4 by (auto simp: new_events_def)
        with notin Cons.prems(2) show ?thesis by blast
      next
        case True
        then have rest: "eachMessageLoop en cfg t p ms w4 = (r, w')"
          using loop Cons.prems(1) by simp
        have g: "grows messageModeEvent w4 w'"
          using grows_eachMessageLoop [of w4 en cfg t p ms] rest by simp
        then obtain rest4 where tl: "trace w' = trace w4 @ rest4" by (auto dest: growsD)
        have ne: "new_events w w' = ?head4 @ new_events w4 w'"
          by (rule new_events_split [OF n4 tl])
        with notin Cons.prems(2) have "?X \<in> set (new_events w4 w')" by auto
        from Cons.IH [OF rest this] obtain pre post c ms1 ms2 where
          ih: "new_events w4 w' = pre @ ?X # post @ [Called (CommitOffsets None) c]"
            "list_all silent post" "r = Threw (case c of Returned \<Rightarrow> e | Threw e' \<Rightarrow> e')"
            "ms = ms1 @ m # ms2 \<and> filter isResolve pre = map (\<lambda>m'. Resolve t p (offset m')) ms1"
            "resolved w' (t, p) = (if ms1 = [] then resolved w4 (t, p) else Some (offset (last ms1)))
             \<and> (c = Returned \<longrightarrow>
                 committed w' (t, p) =
                   (case resolved w' (t, p) of None \<Rightarrow> committed w4 (t, p) | Some x \<Rightarrow> Some (x + 1)))"
            "cursorBefore w4 t p ms \<longrightarrow> (\<forall>x. committed w' (t, p) = Some x \<longrightarrow> x \<le> offset m)"
            "c = Returned \<longrightarrow> cursorBefore w4 t p ms \<longrightarrow>
               (\<forall>y. resolved w4 (t, p) = Some y \<longrightarrow> (\<exists>x. committed w' (t, p) = Some x \<and> y \<le> x))"
          by blast
        have r4w: "resolved w4 (t, p) = Some (offset m0)"
          using resolved_perform [of en CommitOffsetsIfNecessary w3]
            resolved_perform [of en "Heartbeat (heartbeatInterval cfg)" ?w2] p3 p4 by simp
        have c3: "committed w3 = committed w"
          using committed_perform_heartbeat [of en "heartbeatInterval cfg" ?w2] p3 f1 by simp
        have r3w: "resolved w3 (t, p) = Some (offset m0)"
          using resolved_perform [of en "Heartbeat (heartbeatInterval cfg)" ?w2] p3 by simp
        have c4: "committed w4 (t, p) = committed w (t, p) \<or> committed w4 (t, p) = Some (offset m0 + 1)"
          using committed_perform_ifNecessary [of en w3] p4 c3 r3w by auto
        have ub: "\<forall>x. committed w' (t, p) = Some x \<longrightarrow> x \<le> offset m"
          if cb: "cursorBefore w t p (m0 # ms)"
        proof -
          have "cursorBefore w4 t p ms" by (rule cursorBefore_step [OF cb r4w c4])
          with ih(6) show ?thesis by blast
        qed
        have st: "\<forall>y. resolved w (t, p) = Some y \<longrightarrow> (\<exists>x. committed w' (t, p) = Some x \<and> y \<le> x)"
          if cr: "c = Returned" and cb: "cursorBefore w t p (m0 # ms)"
        proof -
          have cb4: "cursorBefore w4 t p ms" by (rule cursorBefore_step [OF cb r4w c4])
          from ih(7) cr cb4 have b: "\<exists>x. committed w' (t, p) = Some x \<and> offset m0 \<le> x"
            using r4w by auto
          from cursorBefore_Cons [OF cb] have "\<forall>y. resolved w (t, p) = Some y \<longrightarrow> y < offset m0"
            by blast
          with b show ?thesis by fastforce
        qed
        have shape: "new_events w w' = (?head4 @ pre) @ ?X # post @ [Called (CommitOffsets None) c]"
          using ne ih(1) by simp
        have fl: "filter isResolve (?head4 @ pre) = map (\<lambda>m'. Resolve t p (offset m')) (m0 # ms1)"
          using ih(4) by simp
        have ex1: "resolved w' (t, p) = Some (offset (last (m0 # ms1)))"
          using ih(5) r4w by simp
        have ex2: "committed w' (t, p) =
             (case resolved w' (t, p) of None \<Rightarrow> committed w (t, p) | Some x \<Rightarrow> Some (x + 1))"
          if "c = Returned"
        proof -
          from ih(5) that have "committed w' (t, p) =
              (case resolved w' (t, p) of None \<Rightarrow> committed w4 (t, p) | Some x \<Rightarrow> Some (x + 1))"
            by blast
          then show ?thesis unfolding ex1 by simp
        qed
        show ?thesis
          using shape ih(2,3,4) st ub fl ex1 ex2
          by (intro exI [of _ "?head4 @ pre"] exI [of _ post] exI [of _ c] exI [of _ "m0 # ms1"] exI [of _ ms2])
             simp
      qed
    qed
  qed
qed

subsection \<open>Whole-batch processing and the fetch cycle append inert events\<close>

lemma grows_bind:
  assumes "grows P w (snd (f w))"
    and "\<And>r w1. f w = (r, w1) \<Longrightarrow> grows P w1 (snd (g r w1))"
  shows "grows P w (snd (case f w of (r, w1) \<Rightarrow> g r w1))"
proof -
  obtain r w1 where f: "f w = (r, w1)" by force
  with assms(1) have "grows P w w1" by simp
  from grows_trans [OF this assms(2) [OF f]] show ?thesis by (simp add: f)
qed

lemma grows_interfere1: "(\<And>a. P (Env a)) \<Longrightarrow> grows P w (interfere1 a w)"
  using grows_interfere [of P w "[a]"] by simp

lemma inert_perform [simp]: "grows inert w (snd (perform en c w))"
  by (rule grows_perform) simp_all

lemma grows_runEachBatch: "grows inert w (snd (runEachBatch en cfg t p h w))"
proof (induction h arbitrary: w)
  case HReturn
  show ?case by simp
next
  case (HThrow e)
  show ?case by simp
next
  case (HResolveOffset off k)
  have "grows inert w (resolveOffset t p off w)" by (rule grows_resolveOffset) simp
  from grows_trans [OF this HResolveOffset.IH] show ?case by simp
next
  case (HHeartbeat k)
  show ?case
    unfolding runEachBatch.simps
    by (rule grows_bind [where f = "perform en (Heartbeat (heartbeatInterval cfg))"])
       (simp_all add: HHeartbeat.IH)
next
  case (HCommitOffsetsIfNecessary offsets k)
  show ?case
  proof (cases offsets)
    case None
    show ?thesis
      unfolding runEachBatch.simps None option.case
      by (rule grows_bind [where f = "perform en CommitOffsetsIfNecessary"])
         (simp_all add: HCommitOffsetsIfNecessary.IH)
  next
    case (Some offs)
    show ?thesis
      unfolding runEachBatch.simps Some option.case
      by (rule grows_bind [where f = "perform en (CommitOffsets (Some offs))"])
         (simp_all add: HCommitOffsetsIfNecessary.IH)
  qed
next
  case (HUncommittedOffsets k)
  then show ?case by simp
next
  case (HIsRunning k)
  then show ?case by simp
next
  case (HIsStale k)
  then show ?case by simp
next
  case (HAct a k)
  have "grows inert w (interfere1 a w)" by (rule grows_interfere1) simp
  from grows_trans [OF this HAct.IH] show ?case by simp
qed

lemma grows_invokeEachBatch: "grows inert w (snd (invokeEachBatch en cfg b w))"
proof (cases "eachBatch cfg")
  case None
  then show ?thesis by (simp add: invokeEachBatch_def)
next
  case (Some h)
  obtain r w1 where run: "runEachBatch en cfg (b_topic b) (b_partition b) (h b w) w = (r, w1)" by force
  have g1: "grows inert w w1"
    using grows_runEachBatch [of w en cfg "b_topic b" "b_partition b" "h b w"] run by simp
  have g2: "grows inert w1 (record_event (Called (EachBatch b) r) w1)"
    by (rule grows_record_event) simp_all
  show ?thesis using grows_trans [OF g1 g2] Some run by (simp add: invokeEachBatch_def)
qed

lemma grows_autoCommitOffsets: "grows inert w (snd (autoCommitOffsets en cfg w))"
  by (simp add: autoCommitOffsets_def)

lemma grows_thrown:
  assumes "grows P w (snd (f w))"
  shows "grows P w (snd (case f w of (Threw e', w3) \<Rightarrow> (Threw e', w3) | (Returned, w3) \<Rightarrow> (r, w3)))"
  using assms by (cases "f w") (auto split: completion.splits)

lemma grows_processEachBatch: "grows inert w (snd (processEachBatch en cfg b w))"
proof -
  obtain r1 w1 where i: "invokeEachBatch en cfg b w = (r1, w1)" by force
  have g1: "grows inert w w1" using grows_invokeEachBatch [of w en cfg b] i by simp
  show ?thesis
  proof (cases r1)
    case Returned
    have "grows inert w1 (resolveOffset (b_topic b) (b_partition b) (lastOffset b) w1)"
      by (rule grows_resolveOffset) simp
    from grows_trans [OF g1 this] g1 show ?thesis
      using i Returned by (simp add: processEachBatch_def)
  next
    case (Threw e)
    let ?w2 = "logUnlessKafkaJSError e ''Error when calling eachBatch'' w1"
    have g2: "grows inert w1 ?w2" by (rule grows_logUnless) simp
    have g3: "grows inert ?w2 (snd (autoCommitOffsets en cfg ?w2))" by (rule grows_autoCommitOffsets)
    have "snd (processEachBatch en cfg b w) = snd (autoCommitOffsets en cfg ?w2)"
      using i Threw by (simp add: processEachBatch_def Let_def split: prod.splits completion.splits)
    then show ?thesis using grows_trans [OF g1 grows_trans [OF g2 g3]] by simp
  qed
qed

lemma inert_messageMode: "messageModeEvent ev \<Longrightarrow> inert ev"
  by (cases ev rule: messageModeEvent.cases) simp_all

lemma grows_onBatch: "grows inert w (snd (onBatch en cfg b w))"
proof -
  let ?w1 = "record_event (Emit (START_BATCH_PROCESS (b_topic b) (b_partition b))) w"
  let ?body = "if eachMessage cfg \<noteq> None then processEachMessage en cfg b ?w1
               else if eachBatch cfg \<noteq> None then processEachBatch en cfg b ?w1
               else (Returned, ?w1)"
  obtain r2 w2 where b: "?body = (r2, w2)" by force
  have g1: "grows inert w ?w1" by (rule grows_record_event) simp_all
  have "grows inert ?w1 (snd ?body)"
    using grows_mono [OF grows_processEachMessage [of ?w1 en cfg b] inert_messageMode]
      grows_processEachBatch [of ?w1 en cfg b]
    by simp
  then have g2: "grows inert ?w1 w2" using b by simp
  have g3: "grows inert w2 (record_event (Emit (END_BATCH_PROCESS (b_topic b) (b_partition b))) w2)"
    by (rule grows_record_event) simp_all
  have "snd (onBatch en cfg b w) = w2 \<or>
        snd (onBatch en cfg b w) = record_event (Emit (END_BATCH_PROCESS (b_topic b) (b_partition b))) w2"
    using b by (cases r2) (simp_all add: onBatch_def Let_def)
  then show ?thesis
    using grows_trans [OF g1 g2] grows_trans [OF grows_trans [OF g1 g2] g3] by auto
qed

lemma grows_batchTask: "grows inert w (snd (batchTask en cfg b w))"
  by (simp add: batchTask_def grows_onBatch)

lemma grows_runTasks: "grows inert w (snd (runTasks en cfg bs w))"
proof (induction bs arbitrary: w)
  case Nil
  show ?case by simp
next
  case (Cons b bs)
  obtain r w1 where t: "batchTask en cfg b w = (r, w1)" by force
  have g1: "grows inert w w1" using grows_batchTask [of w en cfg b] t by simp
  show ?case
    using t g1 grows_trans [OF g1 Cons.IH [of w1]] by (cases r) simp_all
qed

lemma grows_fetch: "grows inert w (snd (fetch en cfg w))"
proof -
  obtain r1 w1 where p: "perform en GroupFetch w = (r1, w1)" by force
  have g1: "grows inert w w1" using inert_perform [of w en GroupFetch] p by simp
  show ?thesis
  proof (cases r1)
    case (Threw e)
    then show ?thesis using p g1 by (simp add: fetch_def)
  next
    case Returned
    let ?w2 = "record_event (Emit (FETCH (length (fetched en w)))) w1"
    obtain r3 w3 where t: "runTasks en cfg (fetched en w) ?w2 = (r3, w3)" by force
    obtain r4 w4 where c: "autoCommitOffsets en cfg w3 = (r4, w4)" by force
    have g2: "grows inert w1 ?w2" by (rule grows_record_event) simp_all
    have g3: "grows inert ?w2 w3" using grows_runTasks [of ?w2 en cfg "fetched en w"] t by simp
    have g4: "grows inert w3 w4" using grows_autoCommitOffsets [of w3 en cfg] c by simp
    have g5: "grows inert w4 (snd (perform en (Heartbeat (heartbeatInterval cfg)) w4))" by simp
    have gw3: "grows inert w w3" by (rule grows_trans [OF g1 grows_trans [OF g2 g3]])
    have gw4: "grows inert w w4" by (rule grows_trans [OF gw3 g4])
    have gw5: "grows inert w (snd (perform en (Heartbeat (heartbeatInterval cfg)) w4))"
      by (rule grows_trans [OF gw4 g5])
    show ?thesis
      using p Returned t c gw3 gw4 gw5 by (cases r3; cases r4) (simp_all add: fetch_def Let_def)
  qed
qed

subsection \<open>The events of join, start, the fetch loop and stop\<close>

lemma grows_retryLoop:
  assumes fn: "\<And>rc w. grows P w (snd (fn rc w))"
    and env: "\<And>a. P (Env a)" and backoff: "\<And>n r. P (Called (Backoff n) r)"
  shows "grows P w (snd (retryLoop en left rc fn w))"
proof (induction left arbitrary: rc w)
  case 0
  obtain a w1 where f: "fn rc w = (a, w1)" by force
  with fn [of w rc] show ?case by (cases a) simp_all
next
  case (Suc n)
  obtain a w1 where f: "fn rc w = (a, w1)" by force
  have g1: "grows P w w1" using fn [of w rc] f by simp
  have g2: "grows P w1 (snd (perform en (Backoff rc) w1))"
    by (rule grows_perform) (simp_all add: env backoff)
  from grows_trans [OF g1 grows_trans [OF g2 Suc.IH]] g1 f show ?case
    by (cases a) simp_all
qed

lemma snd_joinCatch [simp]: "snd (joinCatch e w) = w"
  by (simp add: joinCatch_def)

lemma grows_emit:
  assumes "\<And>a. P (Env a)" and "P (Emit i)" and "\<And>r. P (Called (Listeners i) r)"
  shows "grows P w (snd (emit en i w))"
proof -
  have g1: "grows P w (record_event (Emit i) w)"
    by (rule grows_record_event) (simp_all add: assms)
  have g2: "grows P (record_event (Emit i) w) (snd (perform en (Listeners i) (record_event (Emit i) w)))"
    by (rule grows_perform) (simp_all add: assms)
  from grows_trans [OF g1 g2] show ?thesis by (simp add: emit_def)
qed

lemma grows_loggerInfo:
  assumes "\<And>a. P (Env a)" and "P (Log LInfo msg)" and "\<And>r. P (Called (Logger LInfo msg) r)"
  shows "grows P w (snd (loggerInfo en msg w))"
proof -
  have g1: "grows P w (record_event (Log LInfo msg) w)"
    by (rule grows_record_event) (simp_all add: assms)
  have g2: "grows P (record_event (Log LInfo msg) w)
      (snd (perform en (Logger LInfo msg) (record_event (Log LInfo msg) w)))"
    by (rule grows_perform) (simp_all add: assms)
  from grows_trans [OF g1 g2] show ?thesis by (simp add: loggerInfo_def)
qed

lemma grows_joinAttempt: "grows joinEvent w (snd (joinAttempt en rc w))"
proof -
  have per: "grows joinEvent w (snd (perform en c w))" for c w
    by (rule grows_perform) (simp_all add: joinEvent_def)
  obtain r1 w1 where p1: "perform en GroupJoin w = (r1, w1)" by force
  obtain r2 w2 where p2: "perform en GroupSync w1 = (r2, w2)" by force
  let ?w3 = "record_event (SetRunning True) (w2\<lparr>running := True\<rparr>)"
  obtain r4 w4 where p4: "perform en IsLeader ?w3 = (r4, w4)" by force
  obtain r5 w5 where p5: "emit en (GROUP_JOIN (memberId w2)) w4 = (r5, w5)" by force
  obtain r6 w6 where p6: "loggerInfo en ''Consumer has joined the group'' w5 = (r6, w6)" by force
  have g1: "grows joinEvent w w1" using per [of w GroupJoin] p1 by simp
  have g2: "grows joinEvent w1 w2" using per [of w1 GroupSync] p2 by simp
  have g3: "grows joinEvent w2 ?w3" by (rule grows_setRunning) (simp add: joinEvent_def)
  have g4: "grows joinEvent ?w3 w4" using per [of ?w3 IsLeader] p4 by simp
  have "grows joinEvent w4 (snd (emit en (GROUP_JOIN (memberId w2)) w4))"
    by (rule grows_emit) (simp_all add: joinEvent_def)
  then have g5: "grows joinEvent w4 w5" using p5 by simp
  have "grows joinEvent w5 (snd (loggerInfo en ''Consumer has joined the group'' w5))"
    by (rule grows_loggerInfo) (simp_all add: joinEvent_def)
  then have g6: "grows joinEvent w5 w6" using p6 by simp
  have gw2: "grows joinEvent w w2" by (rule grows_trans [OF g1 g2])
  have gw4: "grows joinEvent w w4" by (rule grows_trans [OF gw2 grows_trans [OF g3 g4]])
  have gw5: "grows joinEvent w w5" by (rule grows_trans [OF gw4 g5])
  have gw6: "grows joinEvent w w6" by (rule grows_trans [OF gw5 g6])
  have "snd (joinAttempt en rc w) \<in> {w1, w2, w4, w5, w6}"
    using p1 p2 p4 p5 p6
    by (cases r1; cases r2; cases r4; cases r5; cases r6) (simp_all add: joinAttempt_def Let_def)
  then show ?thesis using g1 gw2 gw4 gw5 gw6 by auto
qed

lemma grows_join: "grows joinEvent w (snd (join en cfg w))"
proof -
  obtain r w1 where t: "retrier en cfg (joinAttempt en) w = (r, w1)" by force
  have "grows joinEvent w (snd (retrier en cfg (joinAttempt en) w))"
    unfolding retrier_def
    by (rule grows_retryLoop) (simp_all add: grows_joinAttempt joinEvent_def)
  then have g1: "grows joinEvent w w1" using t by simp
  have g2: "grows joinEvent w1 (interfere (resumption en w1) w1)"
    by (rule grows_interfere) (simp add: joinEvent_def)
  from grows_trans [OF g1 g2] show ?thesis by (simp add: join_def t)
qed

lemma joinAttempt_Done:
  assumes "joinAttempt en rc w = (Done, w')"
  shows "SetRunning True \<in> set (new_events w w')"
proof -
  have per: "grows joinEvent w (snd (perform en c w))" for c w
    by (rule grows_perform) (simp_all add: joinEvent_def)
  obtain r1 w1 where p1: "perform en GroupJoin w = (r1, w1)" by force
  obtain r2 w2 where p2: "perform en GroupSync w1 = (r2, w2)" by force
  let ?w3 = "record_event (SetRunning True) (w2\<lparr>running := True\<rparr>)"
  obtain r4 w4 where p4: "perform en IsLeader ?w3 = (r4, w4)" by force
  obtain r5 w5 where p5: "emit en (GROUP_JOIN (memberId w2)) w4 = (r5, w5)" by force
  obtain r6 w6 where p6: "loggerInfo en ''Consumer has joined the group'' w5 = (r6, w6)" by force
  have nd: "fst (joinCatch e v) \<noteq> Done" for e v
    by (simp add: joinCatch_def)
  have "r1 = Returned \<and> r2 = Returned \<and> r4 = Returned \<and> r5 = Returned \<and> r6 = Returned \<and> w' = w6"
    using assms p1 p2 p4 p5 p6 nd
    by (cases r1; cases r2; cases r4; cases r5; cases r6)
       (auto simp: joinAttempt_def Let_def dest: arg_cong [where f = fst])
  then have w': "w' = w6" by simp
  have g1: "grows joinEvent w w1" using per [of w GroupJoin] p1 by simp
  have g2: "grows joinEvent w1 w2" using per [of w1 GroupSync] p2 by simp
  have gw2: "grows joinEvent w w2" by (rule grows_trans [OF g1 g2])
  have g3: "grows joinEvent w2 ?w3" by (rule grows_setRunning) (simp add: joinEvent_def)
  have g4: "grows joinEvent ?w3 w4" using per [of ?w3 IsLeader] p4 by simp
  have "grows joinEvent w4 (snd (emit en (GROUP_JOIN (memberId w2)) w4))"
    by (rule grows_emit) (simp_all add: joinEvent_def)
  then have g5: "grows joinEvent w4 w5" using p5 by simp
  have "grows joinEvent w5 (snd (loggerInfo en ''Consumer has joined the group'' w5))"
    by (rule grows_loggerInfo) (simp_all add: joinEvent_def)
  then have g6: "grows joinEvent w5 w6" using p6 by simp
  have gw3: "grows joinEvent w ?w3" by (rule grows_trans [OF gw2 g3])
  have g36: "grows joinEvent ?w3 w6" by (rule grows_trans [OF g4 grows_trans [OF g5 g6]])
  have "trace ?w3 = trace w @ (new_events w w2 @ [SetRunning True])"
    using grows_trace [OF gw2] by simp
  then have "new_events w ?w3 = new_events w w2 @ [SetRunning True]"
    by (rule new_events_append)
  with new_events_trans [OF gw3 g36] show ?thesis unfolding w' by simp
qed

lemma retryLoop_join_Returned:
  assumes "retryLoop en left rc (joinAttempt en) w = (Returned, w')"
  shows "SetRunning True \<in> set (new_events w w')"
  using assms
proof (induction left arbitrary: rc w)
  case 0
  obtain a w1 where f: "joinAttempt en rc w = (a, w1)" by force
  with 0 have "a = Done" "w' = w1" by (cases a; simp)+
  with joinAttempt_Done f show ?case by simp
next
  case (Suc n)
  obtain a w1 where f: "joinAttempt en rc w = (a, w1)" by force
  show ?case
  proof (cases a)
    case Done
    with Suc.prems f have "w' = w1" by simp
    with joinAttempt_Done f Done show ?thesis by simp
  next
    case (Bailed e)
    with Suc.prems f show ?thesis by simp
  next
    case (Rethrown e)
    let ?w2 = "snd (perform en (Backoff rc) w1)"
    have rest: "retryLoop en n (Suc rc) (joinAttempt en) ?w2 = (Returned, w')"
      using Suc.prems f Rethrown by simp
    have g1: "grows joinEvent w w1" using grows_joinAttempt [of w en rc] f by simp
    have g2: "grows joinEvent w1 ?w2" by (rule grows_perform) (simp_all add: joinEvent_def)
    have g3: "grows joinEvent ?w2 w'"
      using grows_retryLoop [of joinEvent "joinAttempt en" ?w2 en n "Suc rc"] rest
      by (simp add: grows_joinAttempt joinEvent_def)
    from new_events_trans [OF grows_trans [OF g1 g2] g3] Suc.IH [OF rest] show ?thesis by simp
  qed
qed

lemma join_Returned:
  assumes "join en cfg w = (Returned, w')"
  shows "SetRunning True \<in> set (new_events w w')"
proof -
  obtain r w1 where t: "retrier en cfg (joinAttempt en) w = (r, w1)" by force
  with assms have r: "r = Returned" and w': "w' = interfere (resumption en w1) w1"
    by (simp_all add: join_def)
  have "SetRunning True \<in> set (new_events w w1)"
    using t r retryLoop_join_Returned [of en "retries cfg" 0 w w1] by (simp add: retrier_def)
  moreover have g1: "grows joinEvent w w1"
    using grows_retryLoop [of joinEvent "joinAttempt en" w en "retries cfg" 0] t
    by (simp add: retrier_def grows_joinAttempt joinEvent_def)
  moreover have "grows joinEvent w1 w'" unfolding w'
    by (rule grows_interfere) (simp add: joinEvent_def)
  ultimately show ?thesis using new_events_trans [of joinEvent w w1 joinEvent w'] by simp
qed

lemma start_joined:
  assumes "\<not> running w" and "join en cfg w = (Returned, w1)"
  shows "new_events w (start en cfg w) = new_events w w1 @ [SetRunning True, ScheduleFetch Direct]"
    and "running (start en cfg w)"
proof -
  have "grows joinEvent w w1" using grows_join [of w en cfg] assms(2) by simp
  from grows_trace [OF this] assms
  have "trace (start en cfg w) = trace w @ (new_events w w1 @ [SetRunning True, ScheduleFetch Direct])"
    by (simp add: start_def)
  then show "new_events w (start en cfg w) = new_events w w1 @ [SetRunning True, ScheduleFetch Direct]"
    by (rule new_events_append)
  from assms show "running (start en cfg w)" by (simp add: start_def)
qed

lemma grows_onCrash: "grows inert w (onCrash en e w)"
  by (simp add: onCrash_def)

lemma loopEvent_joinEvent: "joinEvent ev \<Longrightarrow> loopEvent ev"
  by (auto simp: joinEvent_def loopEvent_def)

lemma loopEvent_inert: "inert ev \<Longrightarrow> loopEvent ev"
  by (auto simp: loopEvent_def)

lemma grows_start: "grows loopEvent w (start en cfg w)"
proof (cases "running w")
  case True
  then show ?thesis by (simp add: start_def)
next
  case False
  obtain r w1 where j: "join en cfg w = (r, w1)" by force
  have g1: "grows loopEvent w w1"
    using grows_mono [OF grows_join [of w en cfg] loopEvent_joinEvent] j by simp
  show ?thesis
  proof (cases r)
    case Returned
    let ?w2 = "record_event (SetRunning True) (w1\<lparr>running := True\<rparr>)"
    have g2: "grows loopEvent w1 ?w2" by (rule grows_setRunning) (simp add: loopEvent_def)
    have g3: "grows loopEvent ?w2 (record_event (ScheduleFetch Direct) ?w2)"
      by (rule grows_record_event) (simp_all add: loopEvent_def)
    from grows_trans [OF g1 grows_trans [OF g2 g3]] show ?thesis
      using False j Returned by (simp add: start_def)
  next
    case (Threw e)
    have "grows loopEvent w1 (onCrash en e w1)"
      by (rule grows_mono [OF grows_onCrash loopEvent_inert])
    from grows_trans [OF g1 this] show ?thesis
      using False j Threw by (simp add: start_def)
  qed
qed

lemma grows_rejoinAndReenter: "grows loopEvent w (snd (rejoinAndReenter en cfg w))"
proof -
  obtain r w1 where j: "join en cfg w = (r, w1)" by force
  have g1: "grows loopEvent w w1"
    using grows_mono [OF grows_join [of w en cfg] loopEvent_joinEvent] j by simp
  have g2: "grows loopEvent w1 (record_event (ScheduleFetch Direct) w1)"
    by (rule grows_record_event) (simp_all add: loopEvent_def)
  show ?thesis using j g1 grows_trans [OF g1 g2] by (cases r) (simp_all add: rejoinAndReenter_def)
qed

lemma grows_log: "P (Log l s) \<Longrightarrow> grows P w (record_event (Log l s) w)"
  by (rule grows_record_event) simp_all

lemma grows_scheduleFetchCatch: "grows loopEvent w (snd (scheduleFetchCatch en cfg e w))"
proof -
  have lg: "grows loopEvent w (record_event (Log l s) w)" for l s w
    by (rule grows_log) (simp add: loopEvent_def)
  have rj: "grows loopEvent w (snd (rejoinAndReenter en cfg (record_event (Log l s) w)))" for l s
    by (rule grows_trans [OF lg grows_rejoinAndReenter])
  let ?w1 = "record_event (Log LError ''The coordinator is not aware of this member, re-joining the group'') w"
  let ?w2 = "record_event SetMemberIdNull (?w1\<lparr>memberId := None\<rparr>)"
  have "grows loopEvent ?w1 ?w2"
    by (rule growsI [where evs = "[SetMemberIdNull]"]) (simp_all add: loopEvent_def)
  from grows_trans [OF lg grows_trans [OF this grows_rejoinAndReenter]]
  have um: "grows loopEvent w (snd (rejoinAndReenter en cfg ?w2))" .
  have sf: "grows loopEvent w (record_event (ScheduleFetch Direct) w)"
    by (rule grows_record_event) (simp_all add: loopEvent_def)
  show ?thesis
    unfolding scheduleFetchCatch_def Let_def using lg rj um sf by simp
qed

lemma grows_setConsuming: "grows loopEvent w (setConsuming b w)"
  unfolding setConsuming_def
  by (rule growsI [where evs = "[SetConsuming b]"]) (simp_all add: loopEvent_def)

lemma grows_scheduleFetchAttempt: "grows loopEvent w (snd (scheduleFetchAttempt en cfg rc w))"
proof -
  let ?w0 = "setConsuming True w"
  obtain r w1 where f: "fetch en cfg ?w0 = (r, w1)" by force
  have g0: "grows loopEvent w ?w0" by (rule grows_setConsuming)
  have g1: "grows loopEvent ?w0 w1"
    using grows_mono [OF grows_fetch [of ?w0 en cfg] loopEvent_inert] f by simp
  have gw1: "grows loopEvent w w1" by (rule grows_trans [OF g0 g1])
  show ?thesis
  proof (cases r)
    case Returned
    let ?w2 = "setConsuming False w1"
    let ?w3 = "record_event (ScheduleFetch Immediate) ?w2"
    have g3: "grows loopEvent ?w2 ?w3" by (rule grows_record_event) (simp_all add: loopEvent_def)
    have "grows loopEvent w (setConsuming False ?w3)"
      by (rule grows_trans [OF gw1 grows_trans [OF grows_setConsuming grows_trans [OF g3 grows_setConsuming]]])
    then show ?thesis using f Returned by (simp add: scheduleFetchAttempt_def)
  next
    case (Threw e)
    obtain a w2 where c: "scheduleFetchCatch en cfg e w1 = (a, w2)" by force
    have "grows loopEvent w1 w2" using grows_scheduleFetchCatch [of w1 en cfg e] c by simp
    from grows_trans [OF gw1 grows_trans [OF this grows_setConsuming]]
    show ?thesis using f Threw c by (simp add: scheduleFetchAttempt_def)
  qed
qed

lemma grows_scheduleFetch: "grows loopEvent w (scheduleFetch en cfg w)"
proof (cases "running w")
  case False
  then show ?thesis by (simp add: scheduleFetch_def grows_log loopEvent_def)
next
  case True
  obtain r w1 where t: "retrier en cfg (scheduleFetchAttempt en cfg) w = (r, w1)" by force
  have "grows loopEvent w (snd (retrier en cfg (scheduleFetchAttempt en cfg) w))"
    unfolding retrier_def
    by (rule grows_retryLoop) (simp_all add: grows_scheduleFetchAttempt loopEvent_def)
  then have g1: "grows loopEvent w w1" using t by simp
  have g2: "grows loopEvent w1 (onCrash en e w1)" for e
    by (rule grows_mono [OF grows_onCrash loopEvent_inert])
  show ?thesis using True t g1 grows_trans [OF g1 g2] by (cases r) (simp_all add: scheduleFetch_def)
qed

subsection \<open>The value of the running flag along the events\<close>

lemma runningAfter_stays_False:
  "list_all (\<lambda>ev. ev \<noteq> SetRunning True \<and> ev \<noteq> Env RunningRaised) evs \<Longrightarrow> \<not> runningAfter False evs"
proof (induction evs)
  case Nil
  show ?case by simp
next
  case (Cons ev evs)
  then show ?case
    by (cases "(False, ev # evs)" rule: runningAfter.cases) auto
qed

lemma stays_stopped:
  assumes "grows P w w'" and "\<not> running w"
    and "SetRunning True \<notin> set (new_events w w')" and "Env RunningRaised \<notin> set (new_events w w')"
  shows "\<not> running w'"
proof -
  have "list_all (\<lambda>ev. ev \<noteq> SetRunning True \<and> ev \<noteq> Env RunningRaised) (new_events w w')"
    using assms(3,4) by (auto simp: list_all_iff)
  from runningAfter_stays_False [OF this] grows_running [OF assms(1)] assms(2)
  show ?thesis by simp
qed

lemma runningAfter_no_stop:
  "list_all (\<lambda>ev. ev \<noteq> SetRunning False \<and> ev \<noteq> Env StopCalled) evs \<Longrightarrow> runningAfter True evs"
proof (induction evs)
  case Nil
  show ?case by simp
next
  case (Cons ev evs)
  then show ?case
    by (cases "(True, ev # evs)" rule: runningAfter.cases) auto
qed

lemma rises_bound:
  "rises b evs + (if b then 1 else 0)
     \<le> 1 + length (filter (\<lambda>ev. ev = SetRunning False \<or> ev = Env StopCalled) evs)"
  by (induction b evs rule: rises.induct) auto

lemma rises_stopCalls:
  assumes "SetRunning False \<notin> set evs"
  shows "rises b evs + (if b then 1 else 0) \<le> 1 + stopCalls evs"
proof -
  have "filter (\<lambda>ev. ev = SetRunning False \<or> ev = Env StopCalled) evs =
        filter (\<lambda>ev. ev = Env StopCalled) evs"
    using assms by (intro filter_cong) auto
  with rises_bound [of b evs] show ?thesis by (simp add: stopCalls_def)
qed

lemma falls_no_write: "list_all (\<lambda>ev. ev \<noteq> SetRunning False) evs \<Longrightarrow> falls b evs = 0"
  by (induction b evs rule: falls.induct) auto

lemma start_never_lowers: "SetRunning False \<notin> set (new_events w (start en cfg w))"
  using grows_new_events [OF grows_start, of "SetRunning False" w en cfg] by (auto simp: loopEvent_def)

lemma scheduleFetch_never_lowers: "SetRunning False \<notin> set (new_events w (scheduleFetch en cfg w))"
  using grows_new_events [OF grows_scheduleFetch, of "SetRunning False" w en cfg]
  by (auto simp: loopEvent_def)

lemma start_rises:
  "rises (running w) (new_events w (start en cfg w)) \<le> 1 + stopCalls (new_events w (start en cfg w))"
  using rises_stopCalls [OF start_never_lowers, of "running w" w en cfg] by simp

lemma scheduleFetch_rises:
  "rises (running w) (new_events w (scheduleFetch en cfg w))
     \<le> stopCalls (new_events w (scheduleFetch en cfg w))"
proof (cases "running w")
  case True
  with rises_stopCalls [OF scheduleFetch_never_lowers, of "running w" w en cfg] show ?thesis by simp
next
  case False
  then show ?thesis by (simp add: scheduleFetch_def)
qed

lemma scheduleFetch_stays_running:
  assumes "Env StopCalled \<notin> set (new_events w (scheduleFetch en cfg w))" and "running w"
  shows "running (scheduleFetch en cfg w)"
proof -
  have g: "grows loopEvent w (scheduleFetch en cfg w)" by (rule grows_scheduleFetch)
  then have "list_all loopEvent (new_events w (scheduleFetch en cfg w))" by (simp add: grows_def)
  with assms(1) have "list_all (\<lambda>ev. ev \<noteq> SetRunning False \<and> ev \<noteq> Env StopCalled)
      (new_events w (scheduleFetch en cfg w))"
    by (auto simp: list_all_iff loopEvent_def)
  from runningAfter_no_stop [OF this] grows_running [OF g] assms(2) show ?thesis by simp
qed

subsection \<open>Stop and its wait\<close>

lemma inert_waitEvent: "waitEvent ev \<Longrightarrow> inert ev"
  by (cases ev rule: waitEvent.cases) simp_all

lemma inert_not_write: "inert ev \<Longrightarrow> ev \<noteq> SetRunning b"
  by auto

lemma scheduleWait_unfold:
  "scheduleWait (Suc n) en w =
     (if \<not> consuming (pollOnce en w) then Some (pollOnce en w) else scheduleWait n en (pollOnce en w))"
  by (simp add: pollOnce_def Let_def)

lemma grows_pollOnce: "grows waitEvent w (pollOnce en w)"
proof -
  let ?w1 = "record_event (Log LDebug ''waiting for consumer to finish...'') w"
  have g1: "grows waitEvent w ?w1" by (rule grows_log) simp
  have "grows waitEvent ?w1 (snd (perform en (Timeout 1000) ?w1))" by (rule grows_perform) simp_all
  from grows_trans [OF g1 this] show ?thesis by (simp add: pollOnce_def)
qed

lemma scheduleWait_Some:
  "scheduleWait n en w = Some w' \<Longrightarrow> grows waitEvent w w' \<and> \<not> consuming w'"
proof (induction n arbitrary: w)
  case 0
  then show ?case by simp
next
  case (Suc n)
  have g2: "grows waitEvent w (pollOnce en w)" by (rule grows_pollOnce)
  show ?case
  proof (cases "consuming (pollOnce en w)")
    case False
    with Suc.prems have "w' = pollOnce en w" by (simp add: scheduleWait_unfold del: scheduleWait.simps)
    with g2 False show ?thesis by simp
  next
    case True
    with Suc.prems have "scheduleWait n en (pollOnce en w) = Some w'" by (simp add: scheduleWait_unfold del: scheduleWait.simps)
    from Suc.IH [OF this] grows_trans [OF g2] show ?thesis by blast
  qed
qed

lemma waitForConsumer_Some:
  "waitForConsumer fuel en w = Some w' \<Longrightarrow> grows waitEvent w w' \<and> \<not> consuming w'"
  by (auto simp: waitForConsumer_def dest: scheduleWait_Some split: if_splits)



lemma stop_running:
  "running w \<Longrightarrow> stop fuel en cfg w =
     (case (if \<not> isTestMode cfg then waitForConsumer fuel en (stopping w) else Some (stopping w)) of
        None \<Rightarrow> None
      | Some w3 \<Rightarrow> Some (Returned, snd (perform en GroupLeave w3)))"
  by (simp add: stop_def stopping_def Let_def)

lemma consuming_stopping [simp]: "consuming (stopping w) = consuming w"
  by (simp add: stopping_def)




lemma grows_stopping: "grows stopEvent w (stopping w)"
proof -
  let ?w1 = "record_event (Log LDebug ''stop consumer group'') w"
  have g1: "grows stopEvent w ?w1" by (rule grows_log) (simp add: stopEvent_def)
  have g2: "grows stopEvent ?w1 (record_event (SetRunning False) (?w1\<lparr>running := False\<rparr>))"
    by (rule grows_setRunning) (simp add: stopEvent_def)
  from grows_trans [OF g1 g2] show ?thesis by (simp add: stopping_def)
qed

lemma stopEvent_inert: "inert ev \<Longrightarrow> stopEvent ev"
  by (simp add: stopEvent_def)

lemma stop_Some:
  assumes "running w" and "stop fuel en cfg w = Some (r, w')"
  shows "\<exists>w3. (if isTestMode cfg then w3 = stopping w
               else waitForConsumer fuel en (stopping w) = Some w3 \<and> \<not> consuming w3)
            \<and> w' = snd (perform en GroupLeave w3)
            \<and> new_events w w' =
                 [Log LDebug ''stop consumer group'', SetRunning False] @ new_events (stopping w) w3
                 @ map Env (fst (respond en GroupLeave w3))
                 @ [Called GroupLeave (snd (respond en GroupLeave w3))]
            \<and> list_all waitEvent (new_events (stopping w) w3)
            \<and> grows stopEvent w w'"
proof -
  let ?wait = "if \<not> isTestMode cfg then waitForConsumer fuel en (stopping w) else Some (stopping w)"
  from assms obtain w3 where w3: "?wait = Some w3" and w': "w' = snd (perform en GroupLeave w3)"
    by (auto simp: stop_running split: option.splits)
  have gs: "grows stopEvent w (stopping w)" by (rule grows_stopping)
  have g3w: "grows waitEvent (stopping w) w3"
    using w3 by (auto split: if_splits dest: waitForConsumer_Some)
  have cons: "isTestMode cfg \<or> \<not> consuming w3"
    using w3 by (auto split: if_splits dest: waitForConsumer_Some)
  have gl: "grows stopEvent w3 w'" unfolding w'
    by (rule grows_mono [OF inert_perform stopEvent_inert])
  have g3: "grows stopEvent (stopping w) w3"
    by (rule grows_mono [OF g3w]) (auto dest: inert_waitEvent stopEvent_inert)
  have t1: "trace (stopping w) = trace w @ [Log LDebug ''stop consumer group'', SetRunning False]"
    by (simp add: stopping_def)
  have t3: "trace w3 = trace (stopping w) @ new_events (stopping w) w3"
    by (rule grows_trace [OF g3w])
  have t4: "trace w' = trace w3 @ map Env (fst (respond en GroupLeave w3))
                    @ [Called GroupLeave (snd (respond en GroupLeave w3))]"
    unfolding w' by (rule trace_perform)
  have ne: "new_events w w' =
      [Log LDebug ''stop consumer group'', SetRunning False] @ new_events (stopping w) w3
        @ map Env (fst (respond en GroupLeave w3)) @ [Called GroupLeave (snd (respond en GroupLeave w3))]"
    by (rule new_events_append) (simp add: t4 t3 t1)
  have li: "list_all waitEvent (new_events (stopping w) w3)"
    using g3w by (simp add: grows_def)
  have gw: "grows stopEvent w w'" by (rule grows_trans [OF gs grows_trans [OF g3 gl]])
  show ?thesis
    using w3 w' cons ne li gw by (intro exI [of _ w3]) (auto split: if_splits)
qed


lemma stop_writes:
  assumes "stop fuel en cfg w = Some (r, w')"
  shows "falls (running w) (new_events w w') = (if running w then 1 else 0)"
    and "SetRunning True \<notin> set (new_events w w')"
    and "running w' = runningAfter (running w) (new_events w w')"
    and "Env RunningRaised \<notin> set (new_events w w') \<Longrightarrow> \<not> running w'"
proof -
  have "falls (running w) (new_events w w') = (if running w then 1 else 0)
      \<and> SetRunning True \<notin> set (new_events w w')
      \<and> running w' = runningAfter (running w) (new_events w w')
      \<and> (Env RunningRaised \<notin> set (new_events w w') \<longrightarrow> \<not> running w')"
  proof (cases "running w")
    case False
    with assms have "w' = w" by (simp add: stop_def)
    with False show ?thesis by (simp add: new_events_def)
  next
    case True
    from stop_Some [OF True assms] obtain w3 where
      ne: "new_events w w' =
                 [Log LDebug ''stop consumer group'', SetRunning False] @ new_events (stopping w) w3
                 @ map Env (fst (respond en GroupLeave w3))
                 @ [Called GroupLeave (snd (respond en GroupLeave w3))]"
      and li: "list_all waitEvent (new_events (stopping w) w3)"
      and g: "grows stopEvent w w'"
      by blast
    let ?rest = "new_events (stopping w) w3 @ map Env (fst (respond en GroupLeave w3))
                 @ [Called GroupLeave (snd (respond en GroupLeave w3))]"
    have inr: "list_all inert ?rest" using li by (auto simp: list_all_iff dest: inert_waitEvent)
    then have "list_all (\<lambda>ev. ev \<noteq> SetRunning False) ?rest"
      by (auto simp: list_all_iff dest: inert_not_write)
    from falls_no_write [OF this] have f: "falls (running w) (new_events w w') = 1"
      using True ne by simp
    have nt: "SetRunning True \<notin> set (new_events w w')"
      using grows_new_events [OF g, of "SetRunning True"] by (auto simp: stopEvent_def)
    have ra: "running w' = runningAfter False ?rest"
      using grows_running [OF g] unfolding ne by simp
    have "\<not> running w'" if "Env RunningRaised \<notin> set (new_events w w')"
    proof -
      have "list_all (\<lambda>ev. ev \<noteq> SetRunning True \<and> ev \<noteq> Env RunningRaised) ?rest"
        using inr that unfolding ne by (auto simp: list_all_iff dest: inert_not_write)
      from runningAfter_stays_False [OF this] ra show ?thesis by simp
    qed
    then show ?thesis using True f nt grows_running [OF g] by simp
  qed
  then show "falls (running w) (new_events w w') = (if running w then 1 else 0)"
    and "SetRunning True \<notin> set (new_events w w')"
    and "running w' = runningAfter (running w) (new_events w w')"
    and "Env RunningRaised \<notin> set (new_events w w') \<Longrightarrow> \<not> running w'"
    by blast+
qed

subsection \<open>The reactions of the fetch loop\<close>

lemma scheduleFetchCatch_classified:
  "scheduleFetchCatch en cfg e w =
     (case classifyFetchError (running w) e of
        CleanExit \<Rightarrow> (Done, record_event (Log LDebug ''consumer not running, exiting'') w)
      | RejoinReenter \<Rightarrow>
          rejoinAndReenter en cfg (record_event (Log LError ''The group is rebalancing, re-joining'') w)
      | ClearMemberRejoinReenter \<Rightarrow>
          rejoinAndReenter en cfg
            (record_event SetMemberIdNull
               ((record_event
                   (Log LError ''The coordinator is not aware of this member, re-joining the group'') w)
                \<lparr>memberId := None\<rparr>))
      | SwallowReenter \<Rightarrow> (Done, record_event (ScheduleFetch Direct) w)
      | BailOut \<Rightarrow> (Bailed e, w)
      | Rethrow \<Rightarrow>
          (Rethrown e, record_event (Log LDebug ''Error while fetching data, trying again...'') w))"
  by (simp add: scheduleFetchCatch_def classifyFetchError_def isRebalancing_def Let_def)

lemma rejoinAndReenter_outcome:
  "(\<forall>e'. fst (rejoinAndReenter en cfg w) \<noteq> Bailed e')
   \<and> (fst (rejoinAndReenter en cfg w) = Done) = (fst (join en cfg w) = Returned)
   \<and> rejoinAndReenter en cfg w =
       (case join en cfg w of
          (Returned, w1) \<Rightarrow> (Done, record_event (ScheduleFetch Direct) w1)
        | (Threw e', w1) \<Rightarrow> (Rethrown e', w1))"
  by (cases "join en cfg w") (auto simp: rejoinAndReenter_def split: completion.splits)

lemma scheduleFetch_failed_cycle:
  assumes "running w" and "fetch en cfg (setConsuming True w) = (Threw e, w1)"
    and "scheduleFetchCatch en cfg e w1 = (a, w2)"
  shows "scheduleFetch en cfg w =
     (case a of
        Done \<Rightarrow> setConsuming False w2
      | Bailed e' \<Rightarrow> onCrash en e' (setConsuming False w2)
      | Rethrown e' \<Rightarrow>
          (case retries cfg of
             0 \<Rightarrow> onCrash en e' (setConsuming False w2)
           | Suc n \<Rightarrow>
               (case retryLoop en n 1 (scheduleFetchAttempt en cfg)
                       (snd (perform en (Backoff 0) (setConsuming False w2))) of
                  (Returned, w3) \<Rightarrow> w3
                | (Threw e'', w3) \<Rightarrow> onCrash en e'' w3)))"
proof -
  have att: "scheduleFetchAttempt en cfg 0 w = (a, setConsuming False w2)"
    using assms(2,3) by (simp add: scheduleFetchAttempt_def)
  show ?thesis
  proof (cases "retries cfg")
    case 0
    with assms(1) att show ?thesis
      by (cases a) (simp_all add: scheduleFetch_def retrier_def)
  next
    case (Suc n)
    with assms(1) att show ?thesis
      by (cases a) (simp_all add: scheduleFetch_def retrier_def)
  qed
qed

subsection \<open>The scenarios, evaluated\<close>

lemmas scenario_defs = liveWorld_def quietEnv_def msgAt_def batch10_def userError_def handlerOk_def
  handlerFailsAt_def noHandlers_def bothHandlers_def manualCommit_def staleAware_def batchMode_def
  seekWorld_def seekDuringFetch_def

lemmas runner_defs = processEachMessage_def invokeEachMessage_def processEachBatch_def invokeEachBatch_def
  onBatch_def batchTask_def fetch_def autoCommitOffsets_def autoCommitOffsetsIfNecessary_def
  settle_def perform_def hasSeekOffset_def resolveOffset_def record_event_def logUnlessKafkaJSError_def
  commitResolved_def commitGiven_def isEmpty_def lastOffset_def uncommittedOffsets_def Let_def

lemma manualCommit_run:
  "fst (processEachMessage quietEnv manualCommit batch10 liveWorld) = Threw userError"
  "trace (snd (processEachMessage quietEnv manualCommit batch10 liveWorld)) =
       [Called (EachMessage ''t'' 0 (msgAt 10)) Returned,
        Resolve ''t'' 0 10,
        Called (Heartbeat 3000) Returned,
        Called CommitOffsetsIfNecessary Returned,
        Called (EachMessage ''t'' 0 (msgAt 11)) (Threw userError),
        Log LError ''Error when calling eachMessage'',
        Called (CommitOffsets None) Returned]"
  "committed (snd (processEachMessage quietEnv manualCommit batch10 liveWorld)) (''t'', 0) = Some 11"
  by (simp_all add: manualCommit_def noHandlers_def processEachMessage_def batch10_def liveWorld_def quietEnv_def
      handlerFailsAt_def msgAt_def userError_def invokeEachMessage_def settle_def perform_def hasSeekOffset_def
      resolveOffset_def record_event_def logUnlessKafkaJSError_def commitResolved_def Let_def)

lemmas loop_defs = scheduleFetch_def scheduleFetchAttempt_def scheduleFetchCatch_def rejoinAndReenter_def
  join_def joinAttempt_def joinCatch_def emit_def loggerInfo_def retrier_def onCrash_def setConsuming_def
  isRebalancing_def start_def newKafkaJSError_def fetch_def perform_def settle_def record_event_def Let_def

lemma stop_run:
  "stop 2 cycleEnds noHandlers busyWorld = Some (Returned, stoppedWorld)"
  "trace stoppedWorld =
     [Log LDebug ''stop consumer group'', SetRunning False,
      Log LDebug ''waiting for consumer to finish...'', Env (ConsumingSet False),
      Called (Timeout 1000) Returned, Called GroupLeave (Threw userError)]"
  "running busyWorld" "\<not> isTestMode noHandlers" "consuming busyWorld"
  by (simp_all add: numeral_2_eq_2 stop_def stopping_def waitForConsumer_def busyWorld_def cycleEnds_def
      liveWorld_def quietEnv_def noHandlers_def perform_def settle_def record_event_def Let_def userError_def
      stoppedWorld_def)

lemma rejoin_run:
  "trace (scheduleFetch stopDuringRejoin bothHandlers liveWorld) =
     [SetConsuming True, Called GroupFetch (Threw rebalanceError),
      Log LError ''The group is rebalancing, re-joining'',
      Env StopCalled, Called GroupJoin Returned, Called GroupSync Returned,
      SetRunning True, Called IsLeader Returned, Emit (GROUP_JOIN (Some ''member-1'')),
      Called (Listeners (GROUP_JOIN (Some ''member-1''))) Returned,
      Log LInfo ''Consumer has joined the group'',
      Called (Logger LInfo ''Consumer has joined the group'') Returned,
      ScheduleFetch Direct, SetConsuming False]"
  "running (scheduleFetch stopDuringRejoin bothHandlers liveWorld)"
  "running liveWorld" "trace liveWorld = []"
  by (simp_all add: loop_defs stopDuringRejoin_def rebalanceError_def bothHandlers_def noHandlers_def
      liveWorld_def quietEnv_def)

lemma crash_run:
  "trace (scheduleFetch (fetchFails notImplemented) bothHandlers liveWorld) =
     [SetConsuming True, Called GroupFetch (Threw notImplemented), SetConsuming False,
      Called (OnCrash notImplemented) Returned]"
  "running (scheduleFetch (fetchFails notImplemented) bothHandlers liveWorld)"
  "trace (scheduleFetch (fetchFails userError) bothHandlers liveWorld) =
     [SetConsuming True, Called GroupFetch (Threw userError),
      Log LDebug ''Error while fetching data, trying again...'', SetConsuming False,
      Called (OnCrash userError) Returned]"
  "running (scheduleFetch (fetchFails userError) bothHandlers liveWorld)"
  by (simp_all add: loop_defs fetchFails_def notImplemented_def userError_def bothHandlers_def noHandlers_def
      liveWorld_def quietEnv_def)

lemma quiet_run:
  "trace (scheduleFetch quietEnv bothHandlers liveWorld) =
     [SetConsuming True, Called GroupFetch Returned, Emit (FETCH 0),
      Called (CommitOffsets None) Returned, Called (Heartbeat 3000) Returned,
      SetConsuming False, ScheduleFetch Immediate, SetConsuming False]"
  by (simp add: loop_defs runner_defs bothHandlers_def noHandlers_def liveWorld_def quietEnv_def)

lemma failed_start_run:
  "\<not> running idleWorld"
  "fst (join (joinFails userError) bothHandlers idleWorld) = Threw userError"
  "trace (start (joinFails userError) bothHandlers idleWorld) =
     [Called GroupJoin (Threw userError), Called (OnCrash userError) Returned]"
  by (simp_all add: loop_defs joinFails_def userError_def idleWorld_def bothHandlers_def noHandlers_def
      liveWorld_def quietEnv_def)

lemma crash_retrier_run:
  "fst (retrier (fetchFails notImplemented) bothHandlers
          (scheduleFetchAttempt (fetchFails notImplemented) bothHandlers) liveWorld) = Threw notImplemented"
  by (simp add: loop_defs fetchFails_def notImplemented_def bothHandlers_def noHandlers_def
      liveWorld_def quietEnv_def)

lemma bail_run:
  "fetch (fetchFails notImplemented) bothHandlers (setConsuming True liveWorld) =
     (Threw notImplemented, snd (fetch (fetchFails notImplemented) bothHandlers (setConsuming True liveWorld)))"
  "running (snd (fetch (fetchFails notImplemented) bothHandlers (setConsuming True liveWorld)))"
  "classifyFetchError True notImplemented = BailOut"
  "classifyFetchError True (notImplemented\<lparr>e_type := ''REBALANCE_IN_PROGRESS''\<rparr>) = RejoinReenter"
  by (simp_all add: loop_defs fetchFails_def notImplemented_def bothHandlers_def noHandlers_def
      liveWorld_def quietEnv_def classifyFetchError_def)

lemma commit_fails_run:
  "fst (processEachMessage commitFails failsFirst batch10 midWorld) = Threw rebalanceError"
  "trace (snd (processEachMessage commitFails failsFirst batch10 midWorld)) =
       [Called (EachMessage ''t'' 0 (msgAt 10)) (Threw userError),
        Log LError ''Error when calling eachMessage'',
        Called (CommitOffsets None) (Threw rebalanceError)]"
  "committed (snd (processEachMessage commitFails failsFirst batch10 midWorld)) (''t'', 0) = Some 5"
  "resolved midWorld (''t'', 0) = Some 9"
  "running midWorld" "trace midWorld = []"
  by (simp_all add: failsFirst_def commitFails_def midWorld_def rebalanceError_def noHandlers_def
      processEachMessage_def batch10_def liveWorld_def quietEnv_def handlerFailsAt_def msgAt_def
      userError_def invokeEachMessage_def settle_def perform_def hasSeekOffset_def resolveOffset_def
      record_event_def logUnlessKafkaJSError_def commitResolved_def Let_def)

lemma listener_crash_run:
  "fst (join listenerFails bothHandlers idleWorld) = Threw userError"
  "trace (start listenerFails bothHandlers idleWorld) =
     [Called GroupJoin Returned, Called GroupSync Returned, SetRunning True,
      Called IsLeader Returned, Emit (GROUP_JOIN (Some ''member-1'')),
      Called (Listeners (GROUP_JOIN (Some ''member-1''))) (Threw userError),
      Called (OnCrash userError) Returned]"
  "running (start listenerFails bothHandlers idleWorld)"
  by (simp_all add: loop_defs listenerFails_def userError_def idleWorld_def bothHandlers_def
      noHandlers_def liveWorld_def quietEnv_def)

lemma start_twice_run:
  "trace (start stopBeforeResume bothHandlers idleWorld) =
     [Called GroupJoin Returned, Called GroupSync Returned, SetRunning True,
      Called IsLeader Returned, Emit (GROUP_JOIN (Some ''member-1'')),
      Called (Listeners (GROUP_JOIN (Some ''member-1''))) Returned,
      Log LInfo ''Consumer has joined the group'',
      Called (Logger LInfo ''Consumer has joined the group'') Returned,
      Env StopCalled, SetRunning True, ScheduleFetch Direct]"
  "rises (running idleWorld) (new_events idleWorld (start stopBeforeResume bothHandlers idleWorld)) = 2"
  "stopCalls (new_events idleWorld (start stopBeforeResume bothHandlers idleWorld)) = 1"
  by (simp_all add: loop_defs stopBeforeResume_def idleWorld_def bothHandlers_def noHandlers_def
      liveWorld_def quietEnv_def new_events_def stopCalls_def)




lemma overtaken_stop_run:
  "\<not> consuming (polled (Suc 0) rejoinedMeanwhile (stopping busyWorld))"
  "trace (snd (perform rejoinedMeanwhile GroupLeave (polled (Suc 0) rejoinedMeanwhile (stopping busyWorld)))) =
     [Log LDebug ''stop consumer group'', SetRunning False,
      Log LDebug ''waiting for consumer to finish...'', Env RunningRaised, Env (ConsumingSet False),
      Called (Timeout 1000) Returned, Called GroupLeave Returned]"
  "running (snd (perform rejoinedMeanwhile GroupLeave (polled (Suc 0) rejoinedMeanwhile (stopping busyWorld))))"
  by (simp_all add: pollOnce_def stopping_def busyWorld_def rejoinedMeanwhile_def liveWorld_def
      quietEnv_def perform_def settle_def record_event_def Let_def)

lemma start_run:
  "fst (join quietEnv bothHandlers idleWorld) = Returned"
  "rises (running idleWorld) (new_events idleWorld (start quietEnv bothHandlers idleWorld)) = 1"
  by (simp_all add: loop_defs idleWorld_def bothHandlers_def noHandlers_def liveWorld_def quietEnv_def
      new_events_def)

subsection \<open>The limiter keeps its bound and its order\<close>

lemma limit_submit [simp]: "limit (submit t s) = limit s"
  by (simp add: submit_def)

lemma limit_complete [simp]: "limit (complete t r s) = limit s"
  by (simp add: complete_def admitNext_def split: list.splits)

lemma limit_step [simp]: "limit (limiterStep ev s) = limit s"
  by (cases ev) simp_all

lemma limit_run [simp]: "limit (limiterRun evs s) = limit s"
  unfolding limiterRun_def by (induction evs arbitrary: s) simp_all

lemma inv_submit: "limiterInv s \<Longrightarrow> limiterInv (submit t s)"
  by (auto simp: limiterInv_def submit_def)

lemma order_submit:
  "limiterInv s \<Longrightarrow> started (submit t s) @ waiting (submit t s) = started s @ waiting s @ [t]"
  by (auto simp: limiterInv_def submit_def)

lemma length_remove1_mem: "t \<in> set xs \<Longrightarrow> Suc (length (remove1 t xs)) = length xs"
  by (induction xs) auto

lemma inv_complete: "limiterInv s \<Longrightarrow> limiterInv (complete t r s)"
proof (cases "t \<in> set (inFlight s)")
  case False
  assume "limiterInv s"
  with False show ?thesis by (simp add: complete_def)
next
  case True
  assume inv: "limiterInv s"
  from length_remove1_mem [OF True] inv show ?thesis
    by (cases "waiting s") (auto simp: limiterInv_def complete_def admitNext_def True)
qed

lemma order_complete: "started (complete t r s) @ waiting (complete t r s) = started s @ waiting s"
  by (simp add: complete_def admitNext_def split: list.splits)

lemma inv_step: "limiterInv s \<Longrightarrow> limiterInv (limiterStep ev s)"
  by (cases ev) (simp_all add: inv_submit inv_complete)

lemma order_step:
  "limiterInv s \<Longrightarrow>
   started (limiterStep ev s) @ waiting (limiterStep ev s) = started s @ waiting s @ submitted [ev]"
  by (cases ev) (simp_all add: order_submit order_complete)

lemma limiterRun_inv:
  "limiterInv s \<Longrightarrow>
   limiterInv (limiterRun evs s) \<and>
   started (limiterRun evs s) @ waiting (limiterRun evs s) = started s @ waiting s @ submitted evs"
proof (induction evs arbitrary: s)
  case Nil
  then show ?case by (simp add: limiterRun_def)
next
  case (Cons ev evs)
  have step: "limiterRun (ev # evs) s = limiterRun evs (limiterStep ev s)"
    by (simp add: limiterRun_def)
  from Cons.IH [OF inv_step [OF Cons.prems, of ev]] order_step [OF Cons.prems, of ev]
  show ?case unfolding step by (cases ev) simp_all
qed

lemma fold_submit_inv:
  "limiterInv s \<Longrightarrow>
   limiterInv (fold submit bs s) \<and> limit (fold submit bs s) = limit s \<and>
   started (fold submit bs s) @ waiting (fold submit bs s) = started s @ waiting s @ bs"
proof (induction bs arbitrary: s)
  case Nil
  then show ?case by simp
next
  case (Cons b bs)
  from Cons.IH [OF inv_submit [OF Cons.prems, of b]] order_submit [OF Cons.prems, of b]
  show ?case by simp
qed

lemma fanOut_inv:
  "limiterInv (fanOut cfg batches) \<and> limit (fanOut cfg batches) = partitionsConsumedConcurrently cfg
   \<and> started (fanOut cfg batches) @ waiting (fanOut cfg batches) = batches"
proof -
  let ?s0 = "limitConcurrency (partitionsConsumedConcurrently cfg) :: batch limiter"
  have "limiterInv ?s0" by (simp add: limiterInv_def limitConcurrency_def)
  from fold_submit_inv [OF this, of batches] show ?thesis
    by (simp add: fanOut_def) (simp add: limitConcurrency_def)
qed

lemma complete_rejected:
  assumes "t \<in> set (inFlight s)"
  shows "settled (complete t (Threw e) s) = settled s @ [(t, Threw e)]"
    and "started (complete t (Threw e) s) = started s @ take 1 (waiting s)"
    and "waiting (complete t (Threw e) s) = drop 1 (waiting s)"
    and "inFlight (complete t (Threw e) s) = remove1 t (inFlight s) @ take 1 (waiting s)"
  using assms by (simp_all add: complete_def admitNext_def split: list.splits)

lemma scenario_facts:
  "running liveWorld" "\<not> isEmpty batch10" "b_topic batch10 = ''t''" "b_partition batch10 = 0"
  "eachMessage bothHandlers \<noteq> None" "eachBatch bothHandlers \<noteq> None"
  "eachMessage noHandlers = None" "eachBatch noHandlers = None"
  by (simp_all add: liveWorld_def isEmpty_def batch10_def bothHandlers_def noHandlers_def)

subsection \<open>Handler dispatch\<close>

text \<open>
  Claim C10. For a non-empty batch processed while the Runner is running: when an
  \<^verbatim>\<open>eachMessage\<close> handler is configured the task is message-at-a-time processing between
  the two instrumentation events, and the \<^verbatim>\<open>eachBatch\<close> handler is never invoked, whether
  or not one is configured as well; when no handler is configured at all the task returns
  normally and does nothing but emit START_BATCH_PROCESS and END_BATCH_PROCESS.
\<close>

theorem C10_handler_dispatch:
  assumes "running w" and "\<not> isEmpty b"
  shows "(eachMessage cfg \<noteq> None \<longrightarrow>
            batchTask en cfg b w =
              (case processEachMessage en cfg b
                      (record_event (Emit (START_BATCH_PROCESS (b_topic b) (b_partition b))) w) of
                 (Threw e, w2) \<Rightarrow> (Threw e, w2)
               | (Returned, w2) \<Rightarrow>
                   (Returned, record_event (Emit (END_BATCH_PROCESS (b_topic b) (b_partition b))) w2))
            \<and> (\<forall>b' r. Called (EachBatch b') r \<notin> set (new_events w (snd (batchTask en cfg b w)))))
       \<and> (eachMessage cfg = None \<and> eachBatch cfg = None \<longrightarrow>
            fst (batchTask en cfg b w) = Returned
            \<and> new_events w (snd (batchTask en cfg b w)) =
                [Emit (START_BATCH_PROCESS (b_topic b) (b_partition b)),
                 Emit (END_BATCH_PROCESS (b_topic b) (b_partition b))])"
proof (intro conjI impI allI)
  assume h: "eachMessage cfg \<noteq> None"
  let ?w1 = "record_event (Emit (START_BATCH_PROCESS (b_topic b) (b_partition b))) w"
  show eq: "batchTask en cfg b w =
      (case processEachMessage en cfg b ?w1 of
         (Threw e, w2) \<Rightarrow> (Threw e, w2)
       | (Returned, w2) \<Rightarrow>
           (Returned, record_event (Emit (END_BATCH_PROCESS (b_topic b) (b_partition b))) w2))"
    using assms h by (simp add: batchTask_def onBatch_def)
  fix b' r
  let ?P = "\<lambda>ev. ev \<noteq> Called (EachBatch b') r"
  obtain c w2 where p: "processEachMessage en cfg b ?w1 = (c, w2)" by force
  have g1: "grows ?P w ?w1" by (rule grows_record_event) simp_all
  have g2: "grows ?P ?w1 w2"
    using grows_mono [OF grows_processEachMessage [of ?w1 en cfg b], of ?P] p
    by (auto dest: notBatchCall_messageMode)
  have g3: "grows ?P w2 (record_event (Emit (END_BATCH_PROCESS (b_topic b) (b_partition b))) w2)"
    by (rule grows_record_event) simp_all
  have "grows ?P w (snd (batchTask en cfg b w))"
    unfolding eq p using grows_trans [OF g1 g2] grows_trans [OF grows_trans [OF g1 g2] g3]
    by (cases c) simp_all
  then show "Called (EachBatch b') r \<notin> set (new_events w (snd (batchTask en cfg b w)))"
    by (auto dest: grows_new_events)
next
  assume "eachMessage cfg = None \<and> eachBatch cfg = None"
  then show "fst (batchTask en cfg b w) = Returned"
    using assms by (simp add: batchTask_def onBatch_def)
next
  assume "eachMessage cfg = None \<and> eachBatch cfg = None"
  then show "new_events w (snd (batchTask en cfg b w)) =
      [Emit (START_BATCH_PROCESS (b_topic b) (b_partition b)),
       Emit (END_BATCH_PROCESS (b_topic b) (b_partition b))]"
    using assms by (simp add: batchTask_def onBatch_def new_events_def)
qed

theorem C10_handler_dispatch_witness:
  "running liveWorld \<and> \<not> isEmpty batch10
   \<and> eachMessage bothHandlers \<noteq> None \<and> eachBatch bothHandlers \<noteq> None
   \<and> (\<forall>b' r. Called (EachBatch b') r
          \<notin> set (new_events liveWorld (snd (batchTask quietEnv bothHandlers batch10 liveWorld))))
   \<and> eachMessage noHandlers = None \<and> eachBatch noHandlers = None
   \<and> fst (batchTask quietEnv noHandlers batch10 liveWorld) = Returned
   \<and> new_events liveWorld (snd (batchTask quietEnv noHandlers batch10 liveWorld)) =
       [Emit (START_BATCH_PROCESS ''t'' 0), Emit (END_BATCH_PROCESS ''t'' 0)]"
proof -
  have pre: "running liveWorld" "\<not> isEmpty batch10"
    by (simp_all add: scenario_facts)
  have both: "eachMessage bothHandlers \<noteq> None" "eachBatch bothHandlers \<noteq> None"
    and none: "eachMessage noHandlers = None" "eachBatch noHandlers = None"
    by (simp_all add: scenario_facts)
  from C10_handler_dispatch [OF pre, of bothHandlers quietEnv] both
  have 1: "\<forall>b' r. Called (EachBatch b') r
      \<notin> set (new_events liveWorld (snd (batchTask quietEnv bothHandlers batch10 liveWorld)))"
    by blast
  from C10_handler_dispatch [OF pre, of noHandlers quietEnv] none
  have 2: "fst (batchTask quietEnv noHandlers batch10 liveWorld) = Returned
      \<and> new_events liveWorld (snd (batchTask quietEnv noHandlers batch10 liveWorld)) =
          [Emit (START_BATCH_PROCESS (b_topic batch10) (b_partition batch10)),
           Emit (END_BATCH_PROCESS (b_topic batch10) (b_partition batch10))]"
    by blast
  show ?thesis using pre both none 1 2 by (simp add: scenario_facts)
qed

subsection \<open>Commit on handler error\<close>

text \<open>
  Claim C1 says that after the handler threw on the message at offset \<open>k\<close> the Runner
  calls \<^verbatim>\<open>consumerGroup.commitOffsets()\<close> and re-throws the handler's error, and that the
  committed offset is then at least the offset resolved before. The commit is awaited
  before the \<^verbatim>\<open>throw\<close>: when the group rejects it, \<^verbatim>\<open>processEachMessage\<close> fails
  with the commit's error, the handler's error is lost, and nothing was committed. With
  offset 9 resolved and 5 committed on entry, a handler that throws on the first message
  (offset 10) and a group that rejects the commit because it is rebalancing, the batch
  fails with the group's error and the committed offset is still 5, below the offset
  resolved before.
\<close>

theorem C1_commit_on_handler_error_counterexample:
  "new_events midWorld (snd (processEachMessage commitFails failsFirst batch10 midWorld)) =
       [Called (EachMessage ''t'' 0 (msgAt 10)) (Threw userError),
        Log LError ''Error when calling eachMessage'',
        Called (CommitOffsets None) (Threw rebalanceError)]
   \<and> fst (processEachMessage commitFails failsFirst batch10 midWorld) = Threw rebalanceError
   \<and> rebalanceError \<noteq> userError
   \<and> resolved midWorld (''t'', 0) = Some 9
   \<and> committed (snd (processEachMessage commitFails failsFirst batch10 midWorld)) (''t'', 0) = Some 5"
  by (simp add: commit_fails_run new_events_def) (simp add: rebalanceError_def userError_def)

text \<open>
  Claim C1, amended. When the message handler throws on a message \<open>m\<close> of a batch,
  nothing follows in \<^verbatim>\<open>processEachMessage\<close> but the error log and the call of
  \<^verbatim>\<open>consumerGroup.commitOffsets()\<close>; then the handler's error is re-thrown when the
  commit went through, and the commit's own error is thrown when the commit failed. The
  offsets resolved up to that point are those of the messages before \<open>m\<close>, in order, so
  that the resolved offset of the partition is the offset of the last message before \<open>m\<close>
  (what it was on entry when \<open>m\<close> is the first). When the commit goes through, the
  committed offset is the one after the resolved offset. Provided the cursor of the
  partition is before the batch on entry (the offsets of the batch increase, and what was
  resolved and committed before lies below them), the committed offset is at most the
  offset of \<open>m\<close> whether the commit goes through or fails, and at least any offset
  resolved before when the commit goes through.
\<close>

theorem C1_commit_on_handler_error_amended:
  assumes "processEachMessage en cfg b w = (r, w')"
    and "Called (EachMessage (b_topic b) (b_partition b) m) (Threw e) \<in> set (new_events w w')"
  shows "\<exists>pre post c ms1 ms2.
      new_events w w' =
        pre @ Called (EachMessage (b_topic b) (b_partition b) m) (Threw e) # post
            @ [Called (CommitOffsets None) c]
      \<and> list_all silent post
      \<and> r = Threw (case c of Returned \<Rightarrow> e | Threw e' \<Rightarrow> e')
      \<and> messages b = ms1 @ m # ms2
      \<and> filter isResolve pre = map (\<lambda>m'. Resolve (b_topic b) (b_partition b) (offset m')) ms1
      \<and> resolved w' (b_topic b, b_partition b) =
          (if ms1 = [] then resolved w (b_topic b, b_partition b) else Some (offset (last ms1)))
      \<and> (c = Returned \<longrightarrow>
           committed w' (b_topic b, b_partition b) =
             (case resolved w' (b_topic b, b_partition b) of
                None \<Rightarrow> committed w (b_topic b, b_partition b)
              | Some x \<Rightarrow> Some (x + 1)))
      \<and> (cursorBefore w (b_topic b) (b_partition b) (messages b) \<longrightarrow>
           (\<forall>x. committed w' (b_topic b, b_partition b) = Some x \<longrightarrow> x \<le> offset m))
      \<and> (c = Returned \<longrightarrow> cursorBefore w (b_topic b) (b_partition b) (messages b) \<longrightarrow>
           (\<forall>y. resolved w (b_topic b, b_partition b) = Some y \<longrightarrow>
                (\<exists>x. committed w' (b_topic b, b_partition b) = Some x \<and> y \<le> x)))"
  using assms unfolding processEachMessage_def by (rule eachMessageLoop_thrown)

theorem C1_commit_on_handler_error_amended_witness:
  "processEachMessage quietEnv manualCommit batch10 liveWorld =
     (Threw userError, snd (processEachMessage quietEnv manualCommit batch10 liveWorld))
   \<and> Called (EachMessage (b_topic batch10) (b_partition batch10) (msgAt 11)) (Threw userError)
        \<in> set (new_events liveWorld (snd (processEachMessage quietEnv manualCommit batch10 liveWorld)))
   \<and> cursorBefore liveWorld (b_topic batch10) (b_partition batch10) (messages batch10)
   \<and> (\<exists>pre post.
        new_events liveWorld (snd (processEachMessage quietEnv manualCommit batch10 liveWorld)) =
          pre @ Called (EachMessage (b_topic batch10) (b_partition batch10) (msgAt 11)) (Threw userError)
              # post @ [Called (CommitOffsets None) Returned]
        \<and> list_all silent post)
   \<and> (\<exists>x. committed (snd (processEachMessage quietEnv manualCommit batch10 liveWorld))
              (b_topic batch10, b_partition batch10) = Some x \<and> x \<le> offset (msgAt 11))
   \<and> processEachMessage commitFails failsFirst batch10 midWorld =
     (Threw rebalanceError, snd (processEachMessage commitFails failsFirst batch10 midWorld))
   \<and> Called (EachMessage (b_topic batch10) (b_partition batch10) (msgAt 10)) (Threw userError)
        \<in> set (new_events midWorld (snd (processEachMessage commitFails failsFirst batch10 midWorld)))
   \<and> cursorBefore midWorld (b_topic batch10) (b_partition batch10) (messages batch10)
   \<and> (\<exists>pre post.
        new_events midWorld (snd (processEachMessage commitFails failsFirst batch10 midWorld)) =
          pre @ Called (EachMessage (b_topic batch10) (b_partition batch10) (msgAt 10)) (Threw userError)
              # post @ [Called (CommitOffsets None) (Threw rebalanceError)]
        \<and> list_all silent post)
   \<and> (\<exists>x. committed (snd (processEachMessage commitFails failsFirst batch10 midWorld))
              (b_topic batch10, b_partition batch10) = Some x \<and> x \<le> offset (msgAt 10))"
proof -
  let ?run = "processEachMessage quietEnv manualCommit batch10 liveWorld"
  let ?run2 = "processEachMessage commitFails failsFirst batch10 midWorld"
  have tp: "b_topic batch10 = ''t''" "b_partition batch10 = 0"
    by (simp_all add: batch10_def)
  have run: "?run = (Threw userError, snd ?run)"
    using manualCommit_run(1) by (metis prod.collapse)
  have ne: "new_events liveWorld (snd ?run) = trace (snd ?run)"
    by (simp add: new_events_def liveWorld_def)
  have thrown: "Called (EachMessage (b_topic batch10) (b_partition batch10) (msgAt 11)) (Threw userError)
      \<in> set (new_events liveWorld (snd ?run))"
    unfolding ne manualCommit_run(2) tp by simp
  have cb: "cursorBefore liveWorld (b_topic batch10) (b_partition batch10) (messages batch10)"
    by (simp add: cursorBefore_def liveWorld_def batch10_def msgAt_def)
  from C1_commit_on_handler_error_amended [OF run thrown] obtain pre post c where
    shape: "new_events liveWorld (snd ?run) =
        pre @ Called (EachMessage (b_topic batch10) (b_partition batch10) (msgAt 11)) (Threw userError) # post
            @ [Called (CommitOffsets None) c]"
    and sil: "list_all silent post"
    and ub: "cursorBefore liveWorld (b_topic batch10) (b_partition batch10) (messages batch10) \<longrightarrow>
           (\<forall>x. committed (snd ?run) (b_topic batch10, b_partition batch10) = Some x \<longrightarrow> x \<le> offset (msgAt 11))"
    by blast
  have "last (new_events liveWorld (snd ?run)) = Called (CommitOffsets None) c"
    unfolding shape by simp
  then have c: "c = Returned"
    unfolding ne manualCommit_run(2) by simp
  from ub cb have "\<forall>x. committed (snd ?run) (b_topic batch10, b_partition batch10) = Some x \<longrightarrow> x \<le> offset (msgAt 11)"
    by blast
  then have bound: "\<exists>x. committed (snd ?run) (b_topic batch10, b_partition batch10) = Some x \<and> x \<le> offset (msgAt 11)"
    using manualCommit_run(3) by (simp add: tp)
  have first: "(\<exists>pre post.
        new_events liveWorld (snd ?run) =
          pre @ Called (EachMessage (b_topic batch10) (b_partition batch10) (msgAt 11)) (Threw userError)
              # post @ [Called (CommitOffsets None) Returned]
        \<and> list_all silent post)"
    using shape sil c by blast
  have run2: "?run2 = (Threw rebalanceError, snd ?run2)"
    using commit_fails_run(1) by (metis prod.collapse)
  have ne2: "new_events midWorld (snd ?run2) = trace (snd ?run2)"
    by (simp add: new_events_def commit_fails_run(6))
  have thrown2: "Called (EachMessage (b_topic batch10) (b_partition batch10) (msgAt 10)) (Threw userError)
      \<in> set (new_events midWorld (snd ?run2))"
    unfolding ne2 commit_fails_run(2) tp by simp
  have cb2: "cursorBefore midWorld (b_topic batch10) (b_partition batch10) (messages batch10)"
    by (simp add: cursorBefore_def midWorld_def liveWorld_def batch10_def msgAt_def)
  from C1_commit_on_handler_error_amended [OF run2 thrown2] obtain pre2 post2 c2 where
    shape2: "new_events midWorld (snd ?run2) =
        pre2 @ Called (EachMessage (b_topic batch10) (b_partition batch10) (msgAt 10)) (Threw userError) # post2
            @ [Called (CommitOffsets None) c2]"
    and sil2: "list_all silent post2"
    and ub2: "cursorBefore midWorld (b_topic batch10) (b_partition batch10) (messages batch10) \<longrightarrow>
           (\<forall>x. committed (snd ?run2) (b_topic batch10, b_partition batch10) = Some x \<longrightarrow> x \<le> offset (msgAt 10))"
    by blast
  have "last (new_events midWorld (snd ?run2)) = Called (CommitOffsets None) c2"
    unfolding shape2 by simp
  then have c2: "c2 = Threw rebalanceError"
    unfolding ne2 commit_fails_run(2) by simp
  from ub2 cb2 have "\<forall>x. committed (snd ?run2) (b_topic batch10, b_partition batch10) = Some x \<longrightarrow> x \<le> offset (msgAt 10)"
    by blast
  then have bound2: "\<exists>x. committed (snd ?run2) (b_topic batch10, b_partition batch10) = Some x \<and> x \<le> offset (msgAt 10)"
    using commit_fails_run(3) by (simp add: tp)
  have second: "(\<exists>pre post.
        new_events midWorld (snd ?run2) =
          pre @ Called (EachMessage (b_topic batch10) (b_partition batch10) (msgAt 10)) (Threw userError)
              # post @ [Called (CommitOffsets None) (Threw rebalanceError)]
        \<and> list_all silent post)"
    using shape2 sil2 c2 by blast
  show ?thesis
    using run thrown cb first bound run2 thrown2 cb2 second bound2 by blast
qed

subsection \<open>Commits when autoCommit is off\<close>

text \<open>
  Claim C3 says that with \<^verbatim>\<open>autoCommit\<close> off the Runner sends no commit to the group.
  \<^verbatim>\<open>processEachMessage\<close> calls \<^verbatim>\<open>consumerGroup.commitOffsetsIfNecessary()\<close> and, on a
  handler error, \<^verbatim>\<open>consumerGroup.commitOffsets()\<close> directly, not through the gated
  \<^verbatim>\<open>autoCommitOffsetsIfNecessary\<close> and \<^verbatim>\<open>autoCommitOffsets\<close>. With \<^verbatim>\<open>autoCommit\<close> off,
  a batch with offsets 10 and 11 and a handler that throws at 11, both commits are sent and
  offset 11 is committed.
\<close>

theorem C3_commits_despite_autoCommit_off:
  "\<not> autoCommit manualCommit
   \<and> fst (processEachMessage quietEnv manualCommit batch10 liveWorld) = Threw userError
   \<and> trace (snd (processEachMessage quietEnv manualCommit batch10 liveWorld)) =
       [Called (EachMessage ''t'' 0 (msgAt 10)) Returned,
        Resolve ''t'' 0 10,
        Called (Heartbeat 3000) Returned,
        Called CommitOffsetsIfNecessary Returned,
        Called (EachMessage ''t'' 0 (msgAt 11)) (Threw userError),
        Log LError ''Error when calling eachMessage'',
        Called (CommitOffsets None) Returned]
   \<and> filter commitCall (trace (snd (processEachMessage quietEnv manualCommit batch10 liveWorld))) =
       [Called CommitOffsetsIfNecessary Returned, Called (CommitOffsets None) Returned]
   \<and> committed (snd (processEachMessage quietEnv manualCommit batch10 liveWorld)) (''t'', 0) = Some 11"
  using manualCommit_run by (simp add: manualCommit_def noHandlers_def)

subsection \<open>Stale batches\<close>

lemma eachMessageLoop_stale:
  "hasSeekOffset w t p \<Longrightarrow> eachMessageLoop en cfg t p ms w = (Returned, w)"
  by (cases ms) simp_all

lemma processEachBatch_returned:
  assumes "fst (processEachBatch en cfg b w) = Returned"
  shows "processEachBatch en cfg b w =
          (Returned,
           if eachBatchAutoResolve cfg
           then resolveOffset (b_topic b) (b_partition b) (lastOffset b) (snd (invokeEachBatch en cfg b w))
           else snd (invokeEachBatch en cfg b w))"
proof -
  obtain r1 w1 where i: "invokeEachBatch en cfg b w = (r1, w1)" by force
  have "r1 = Returned"
  proof (cases r1)
    case (Threw e)
    then have "fst (processEachBatch en cfg b w) \<noteq> Returned"
      using i by (simp add: processEachBatch_def Let_def split: prod.splits completion.splits)
    with assms show ?thesis by simp
  qed
  then show ?thesis using i by (simp add: processEachBatch_def)
qed

text \<open>
  Claim C7 says that processing a batch whose partition has a pending seek resolves and
  commits nothing of that batch, also under \<^verbatim>\<open>processEachBatch\<close>. There the Runner never
  looks at the seek: with \<^verbatim>\<open>eachBatchAutoResolve\<close> on, a handler that sees
  \<^verbatim>\<open>isStale()\<close> and returns has the last offset of the stale batch resolved for it, and
  the commit at the end of the cycle commits it.
\<close>

theorem C7_stale_batch_counterexample:
  "hasSeekOffset seekWorld (b_topic batch10) (b_partition batch10)
   \<and> fst (processEachBatch quietEnv batchMode batch10 seekWorld) = Returned
   \<and> new_events seekWorld (snd (processEachBatch quietEnv batchMode batch10 seekWorld)) =
        [Called (EachBatch batch10) Returned, Resolve ''t'' 0 11]
   \<and> resolved (snd (processEachBatch quietEnv batchMode batch10 seekWorld)) (''t'', 0) = Some 11
   \<and> trace (snd (fetch seekDuringFetch batchMode liveWorld)) =
        [Env (SeekCalled ''t'' 0 50), Called GroupFetch Returned, Emit (FETCH 1),
         Emit (START_BATCH_PROCESS ''t'' 0), Called (EachBatch batch10) Returned, Resolve ''t'' 0 11,
         Emit (END_BATCH_PROCESS ''t'' 0), Called (CommitOffsets None) Returned,
         Called (Heartbeat 3000) Returned]
   \<and> committed (snd (fetch seekDuringFetch batchMode liveWorld)) (''t'', 0) = Some 12"
  by (simp add: scenario_defs runner_defs new_events_def)

text \<open>
  Claim C7, amended. A batch that is stale when \<^verbatim>\<open>processEachMessage\<close> reaches it is left
  alone: no handler call, nothing resolved, no commit, the world is unchanged. Under
  \<^verbatim>\<open>processEachBatch\<close> staleness is for the handler to observe; when the handler
  returns normally the Runner resolves the last offset of the batch exactly when
  \<^verbatim>\<open>eachBatchAutoResolve\<close> is on, stale or not.
\<close>

theorem C7_stale_batch_amended:
  "(hasSeekOffset w (b_topic b) (b_partition b) \<longrightarrow> processEachMessage en cfg b w = (Returned, w))
   \<and> (fst (processEachBatch en cfg b w) = Returned \<longrightarrow>
        processEachBatch en cfg b w =
          (Returned,
           if eachBatchAutoResolve cfg
           then resolveOffset (b_topic b) (b_partition b) (lastOffset b) (snd (invokeEachBatch en cfg b w))
           else snd (invokeEachBatch en cfg b w)))
   \<and> (fst (processEachBatch en cfg b w) = Returned \<and> eachBatchAutoResolve cfg \<longrightarrow>
        resolved (snd (processEachBatch en cfg b w)) (b_topic b, b_partition b) = Some (lastOffset b))"
proof (intro conjI impI)
  assume "hasSeekOffset w (b_topic b) (b_partition b)"
  then show "processEachMessage en cfg b w = (Returned, w)"
    by (simp add: processEachMessage_def eachMessageLoop_stale)
next
  assume "fst (processEachBatch en cfg b w) = Returned"
  then show "processEachBatch en cfg b w =
          (Returned,
           if eachBatchAutoResolve cfg
           then resolveOffset (b_topic b) (b_partition b) (lastOffset b) (snd (invokeEachBatch en cfg b w))
           else snd (invokeEachBatch en cfg b w))"
    by (rule processEachBatch_returned)
next
  assume a: "fst (processEachBatch en cfg b w) = Returned \<and> eachBatchAutoResolve cfg"
  then show "resolved (snd (processEachBatch en cfg b w)) (b_topic b, b_partition b) = Some (lastOffset b)"
    using processEachBatch_returned [of en cfg b w] by simp
qed

theorem C7_stale_batch_amended_witness:
  "hasSeekOffset seekWorld (b_topic batch10) (b_partition batch10)
   \<and> processEachMessage quietEnv bothHandlers batch10 seekWorld = (Returned, seekWorld)
   \<and> fst (processEachBatch quietEnv batchMode batch10 seekWorld) = Returned
   \<and> eachBatchAutoResolve batchMode
   \<and> resolved (snd (processEachBatch quietEnv batchMode batch10 seekWorld))
        (b_topic batch10, b_partition batch10) = Some (lastOffset batch10)"
proof -
  have stale: "hasSeekOffset seekWorld (b_topic batch10) (b_partition batch10)"
    by (simp add: scenario_defs hasSeekOffset_def)
  have ret: "fst (processEachBatch quietEnv batchMode batch10 seekWorld) = Returned"
    and autoR: "eachBatchAutoResolve batchMode"
    by (simp_all add: scenario_defs runner_defs)
  note inst = C7_stale_batch_amended [of seekWorld batch10 quietEnv]
  from inst [of bothHandlers] stale
  have 1: "processEachMessage quietEnv bothHandlers batch10 seekWorld = (Returned, seekWorld)"
    by blast
  from inst [of batchMode] ret autoR
  have 2: "resolved (snd (processEachBatch quietEnv batchMode batch10 seekWorld))
        (b_topic batch10, b_partition batch10) = Some (lastOffset batch10)"
    by blast
  show ?thesis using stale ret autoR 1 2 by blast
qed

subsection \<open>Stopping\<close>



subsection \<open>Transitions of the running flag\<close>

text \<open>
  Claim C4 says that \<^verbatim>\<open>running\<close> goes from false to true only inside \<^verbatim>\<open>start\<close>.
  \<^verbatim>\<open>join\<close> sets it to true after every successful join and sync, also when the fetch
  loop re-joins after a rebalance: when \<^verbatim>\<open>stop()\<close> is called while that re-join awaits
  the group, \<^verbatim>\<open>running\<close> goes from false back to true inside \<^verbatim>\<open>scheduleFetch\<close>.
\<close>

theorem C4_running_transitions_counterexample:
  "running liveWorld
   \<and> new_events liveWorld (scheduleFetch stopDuringRejoin bothHandlers liveWorld) =
       [SetConsuming True, Called GroupFetch (Threw rebalanceError),
        Log LError ''The group is rebalancing, re-joining'',
        Env StopCalled, Called GroupJoin Returned, Called GroupSync Returned,
        SetRunning True, Called IsLeader Returned, Emit (GROUP_JOIN (Some ''member-1'')),
        Called (Listeners (GROUP_JOIN (Some ''member-1''))) Returned,
        Log LInfo ''Consumer has joined the group'',
        Called (Logger LInfo ''Consumer has joined the group'') Returned,
        ScheduleFetch Direct, SetConsuming False]
   \<and> rises (running liveWorld) (new_events liveWorld (scheduleFetch stopDuringRejoin bothHandlers liveWorld)) = 1
   \<and> running (scheduleFetch stopDuringRejoin bothHandlers liveWorld)"
  by (simp add: rejoin_run new_events_def)

text \<open>
  Claim C4, amended. \<^verbatim>\<open>running\<close> is written in three places: \<^verbatim>\<open>join\<close> and
  \<^verbatim>\<open>start\<close> set it to true, \<^verbatim>\<open>stop\<close> sets it to false. A fetch cycle never writes
  it; \<^verbatim>\<open>join\<close>, \<^verbatim>\<open>start\<close> and the fetch loop never set it to false; the recorded
  events account for its value. A \<^verbatim>\<open>join\<close> that returns has set it to true; a
  \<^verbatim>\<open>start\<close> that found the Runner running does nothing, and one whose join returns
  sets it to true once more, starts the fetch loop and leaves it true. The transitions from false to true are bounded by the
  calls of \<^verbatim>\<open>stop()\<close> made meanwhile: \<^verbatim>\<open>start\<close> makes at most one more than there
  were such calls while it ran (one when there were none; a \<^verbatim>\<open>stop()\<close> between the
  write of \<^verbatim>\<open>join\<close> and the write of \<^verbatim>\<open>start\<close> makes it two), the fetch loop at most as
  many as there were such calls (none when there were none). A \<^verbatim>\<open>stop\<close> that returns
  never sets \<^verbatim>\<open>running\<close> to true and makes exactly one transition from true to false
  when it found the Runner running, none otherwise; \<^verbatim>\<open>running\<close> is false when it
  returns unless another flow, such as a re-join of the fetch loop, raised it while
  \<^verbatim>\<open>stop\<close> waited.
\<close>

theorem C4_running_transitions_amended:
  "(\<forall>b. SetRunning b \<notin> set (new_events w (snd (fetch en cfg w))))
   \<and> SetRunning False \<notin> set (new_events w (snd (join en cfg w)))
   \<and> SetRunning False \<notin> set (new_events w (start en cfg w))
   \<and> SetRunning False \<notin> set (new_events w (scheduleFetch en cfg w))
   \<and> running (start en cfg w) = runningAfter (running w) (new_events w (start en cfg w))
   \<and> running (scheduleFetch en cfg w) = runningAfter (running w) (new_events w (scheduleFetch en cfg w))
   \<and> rises (running w) (new_events w (start en cfg w))
        \<le> 1 + stopCalls (new_events w (start en cfg w))
   \<and> rises (running w) (new_events w (scheduleFetch en cfg w))
        \<le> stopCalls (new_events w (scheduleFetch en cfg w))
   \<and> (stop fuel en cfg w = Some (r, w') \<longrightarrow>
         SetRunning True \<notin> set (new_events w w')
         \<and> running w' = runningAfter (running w) (new_events w w')
         \<and> falls (running w) (new_events w w') = (if running w then 1 else 0)
         \<and> (Env RunningRaised \<notin> set (new_events w w') \<longrightarrow> \<not> running w'))
   \<and> (join en cfg w = (Returned, w1) \<longrightarrow> SetRunning True \<in> set (new_events w w1))
   \<and> (running w \<longrightarrow> start en cfg w = w)
   \<and> (\<not> running w \<and> join en cfg w = (Returned, w1) \<longrightarrow>
         new_events w (start en cfg w) = new_events w w1 @ [SetRunning True, ScheduleFetch Direct]
         \<and> running (start en cfg w))"
proof (intro conjI allI impI)
  fix b
  show "SetRunning b \<notin> set (new_events w (snd (fetch en cfg w)))"
    using grows_new_events [OF grows_fetch, of "SetRunning b" w en cfg] by auto
next
  show "SetRunning False \<notin> set (new_events w (snd (join en cfg w)))"
    using grows_new_events [OF grows_join, of "SetRunning False" w en cfg] by (auto simp: joinEvent_def)
next
  show "SetRunning False \<notin> set (new_events w (start en cfg w))"
    by (rule start_never_lowers)
next
  show "SetRunning False \<notin> set (new_events w (scheduleFetch en cfg w))"
    by (rule scheduleFetch_never_lowers)
next
  show "running (start en cfg w) = runningAfter (running w) (new_events w (start en cfg w))"
    by (rule grows_running [OF grows_start])
next
  show "running (scheduleFetch en cfg w) = runningAfter (running w) (new_events w (scheduleFetch en cfg w))"
    by (rule grows_running [OF grows_scheduleFetch])
next
  show "rises (running w) (new_events w (start en cfg w))
        \<le> 1 + stopCalls (new_events w (start en cfg w))"
    by (rule start_rises)
next
  show "rises (running w) (new_events w (scheduleFetch en cfg w))
        \<le> stopCalls (new_events w (scheduleFetch en cfg w))"
    by (rule scheduleFetch_rises)
next
  assume s: "stop fuel en cfg w = Some (r, w')"
  show "SetRunning True \<notin> set (new_events w w')" by (rule stop_writes(2) [OF s])
  show "running w' = runningAfter (running w) (new_events w w')" by (rule stop_writes(3) [OF s])
  show "falls (running w) (new_events w w') = (if running w then 1 else 0)" by (rule stop_writes(1) [OF s])
next
  assume s: "stop fuel en cfg w = Some (r, w')"
    and "Env RunningRaised \<notin> set (new_events w w')"
  then show "\<not> running w'" by (rule stop_writes(4))
next
  assume "join en cfg w = (Returned, w1)"
  then show "SetRunning True \<in> set (new_events w w1)" by (rule join_Returned)
next
  assume "running w"
  then show "start en cfg w = w" by (simp add: start_def)
next
  assume a: "\<not> running w \<and> join en cfg w = (Returned, w1)"
  then show "new_events w (start en cfg w) = new_events w w1 @ [SetRunning True, ScheduleFetch Direct]"
    by (intro start_joined(1)) blast+
  from a show "running (start en cfg w)" by (intro start_joined(2) [of w en cfg w1]) blast+
qed

theorem C4_running_transitions_amended_witness:
  "stopCalls (new_events liveWorld (scheduleFetch quietEnv bothHandlers liveWorld)) = 0
   \<and> rises (running liveWorld) (new_events liveWorld (scheduleFetch quietEnv bothHandlers liveWorld)) = 0
   \<and> stop 2 cycleEnds noHandlers busyWorld = Some (Returned, stoppedWorld)
   \<and> running busyWorld
   \<and> Env RunningRaised \<notin> set (new_events busyWorld stoppedWorld)
   \<and> \<not> running stoppedWorld
   \<and> falls (running busyWorld) (new_events busyWorld stoppedWorld) = 1
   \<and> start quietEnv bothHandlers liveWorld = liveWorld
   \<and> \<not> running idleWorld
   \<and> fst (join quietEnv bothHandlers idleWorld) = Returned
   \<and> SetRunning True \<in> set (new_events idleWorld (snd (join quietEnv bothHandlers idleWorld)))
   \<and> running (start quietEnv bothHandlers idleWorld)
   \<and> rises (running idleWorld) (new_events idleWorld (start quietEnv bothHandlers idleWorld)) = 1"
proof -
  have ns: "stopCalls (new_events liveWorld (scheduleFetch quietEnv bothHandlers liveWorld)) = 0"
    by (simp add: new_events_def quiet_run rejoin_run(4) stopCalls_def)
  have nr: "Env RunningRaised \<notin> set (new_events busyWorld stoppedWorld)"
    by (simp add: new_events_def stop_run(2) busyWorld_def liveWorld_def)
  let ?j = "join quietEnv bothHandlers idleWorld"
  have j: "?j = (Returned, snd ?j)"
    using start_run(1) by (metis prod.collapse)
  note inst = C4_running_transitions_amended
    [where w = liveWorld and en = quietEnv and cfg = bothHandlers]
  note inst2 = C4_running_transitions_amended
    [where w = busyWorld and en = cycleEnds and cfg = noHandlers and fuel = 2 and r = Returned
       and w' = stoppedWorld]
  note inst3 = C4_running_transitions_amended
    [where w = idleWorld and en = quietEnv and cfg = bothHandlers and ?w1.0 = "snd ?j"]
  from inst ns
  have 1: "rises (running liveWorld) (new_events liveWorld (scheduleFetch quietEnv bothHandlers liveWorld)) = 0"
    by simp
  from inst2 stop_run(1) nr have 2: "\<not> running stoppedWorld"
    and 3: "falls (running busyWorld) (new_events busyWorld stoppedWorld) = (if running busyWorld then 1 else 0)"
    by blast+
  from inst rejoin_run(3) have 4: "start quietEnv bothHandlers liveWorld = liveWorld" by blast
  from inst3 j have 5: "SetRunning True \<in> set (new_events idleWorld (snd ?j))" by blast
  from inst3 j failed_start_run(1) have 6: "running (start quietEnv bothHandlers idleWorld)" by blast
  show ?thesis using ns nr 1 2 3 4 5 6 stop_run(1,3) failed_start_run(1) start_run by simp
qed

subsection \<open>The running flag after a crash\<close>

text \<open>
  Claim C5 says that the Runner is left with \<^verbatim>\<open>running\<close> false whenever \<^verbatim>\<open>onCrash\<close>
  fires. When the fetch loop bails out (KafkaJSNotImplemented) or runs out of retries,
  \<^verbatim>\<open>onCrash\<close> is called and \<^verbatim>\<open>running\<close> is still true: nothing in the Runner clears
  it on that path. The same holds from \<^verbatim>\<open>start\<close> when the join fails after
  \<^verbatim>\<open>this.running = true\<close>, for instance because a listener of GROUP_JOIN throws.
\<close>

theorem C5_running_after_crash_counterexample:
  "Called (OnCrash notImplemented) Returned
      \<in> set (trace (scheduleFetch (fetchFails notImplemented) bothHandlers liveWorld))
   \<and> running (scheduleFetch (fetchFails notImplemented) bothHandlers liveWorld)
   \<and> retries bothHandlers = 0
   \<and> Called (OnCrash userError) Returned
      \<in> set (trace (scheduleFetch (fetchFails userError) bothHandlers liveWorld))
   \<and> running (scheduleFetch (fetchFails userError) bothHandlers liveWorld)
   \<and> trace (start listenerFails bothHandlers idleWorld) =
       [Called GroupJoin Returned, Called GroupSync Returned, SetRunning True,
        Called IsLeader Returned, Emit (GROUP_JOIN (Some ''member-1'')),
        Called (Listeners (GROUP_JOIN (Some ''member-1''))) (Threw userError),
        Called (OnCrash userError) Returned]
   \<and> running (start listenerFails bothHandlers idleWorld)"
  by (simp add: crash_run listener_crash_run) (simp add: bothHandlers_def noHandlers_def)

text \<open>
  Claim C5, amended. The Runner never writes false to \<^verbatim>\<open>running\<close> on the way to
  \<^verbatim>\<open>onCrash\<close>. When \<^verbatim>\<open>onCrash\<close> fires from \<^verbatim>\<open>start\<close> because the join failed,
  \<^verbatim>\<open>running\<close> is false afterwards provided no attempt of the join got as far as
  \<^verbatim>\<open>this.running = true\<close> (the join or the sync call failed) and no other flow raised
  it meanwhile; otherwise the events tell its value. When \<^verbatim>\<open>onCrash\<close> fires from the
  fetch loop, \<^verbatim>\<open>running\<close> is still true unless \<^verbatim>\<open>stop()\<close> was called meanwhile:
  stopping the Runner is left to the crash handler. A fetch loop entered while not running
  exits without a crash.
\<close>

theorem C5_running_after_crash_amended:
  "(\<not> running w \<and> join en cfg w = (Threw e, w1) \<longrightarrow>
       start en cfg w = onCrash en e w1
       \<and> SetRunning False \<notin> set (new_events w (start en cfg w))
       \<and> running (start en cfg w) = runningAfter False (new_events w (start en cfg w))
       \<and> (SetRunning True \<notin> set (new_events w (start en cfg w))
            \<and> Env RunningRaised \<notin> set (new_events w (start en cfg w)) \<longrightarrow>
            \<not> running (start en cfg w)))
   \<and> (running w \<and> retrier en cfg (scheduleFetchAttempt en cfg) w = (Threw e, w1) \<longrightarrow>
       scheduleFetch en cfg w = onCrash en e w1
       \<and> SetRunning False \<notin> set (new_events w (scheduleFetch en cfg w))
       \<and> (Env StopCalled \<notin> set (new_events w (scheduleFetch en cfg w)) \<longrightarrow>
            running (scheduleFetch en cfg w)))
   \<and> (\<not> running w \<longrightarrow>
       scheduleFetch en cfg w = record_event (Log LDebug ''consumer not running, exiting'') w)"
proof (intro conjI impI)
  assume a: "\<not> running w \<and> join en cfg w = (Threw e, w1)"
  then show "start en cfg w = onCrash en e w1" by (simp add: start_def)
  show "SetRunning False \<notin> set (new_events w (start en cfg w))" by (rule start_never_lowers)
  from a grows_running [OF grows_start [of w en cfg]]
  show "running (start en cfg w) = runningAfter False (new_events w (start en cfg w))" by simp
next
  assume a: "\<not> running w \<and> join en cfg w = (Threw e, w1)"
    and b: "SetRunning True \<notin> set (new_events w (start en cfg w))
            \<and> Env RunningRaised \<notin> set (new_events w (start en cfg w))"
  from a b show "\<not> running (start en cfg w)"
    by (intro stays_stopped [OF grows_start]) blast+
next
  assume a: "running w \<and> retrier en cfg (scheduleFetchAttempt en cfg) w = (Threw e, w1)"
  then show "scheduleFetch en cfg w = onCrash en e w1" by (simp add: scheduleFetch_def)
  show "SetRunning False \<notin> set (new_events w (scheduleFetch en cfg w))"
    by (rule scheduleFetch_never_lowers)
next
  assume a: "running w \<and> retrier en cfg (scheduleFetchAttempt en cfg) w = (Threw e, w1)"
    and "Env StopCalled \<notin> set (new_events w (scheduleFetch en cfg w))"
  then show "running (scheduleFetch en cfg w)"
    by (intro scheduleFetch_stays_running) blast+
next
  assume "\<not> running w"
  then show "scheduleFetch en cfg w = record_event (Log LDebug ''consumer not running, exiting'') w"
    by (simp add: scheduleFetch_def)
qed

theorem C5_running_after_crash_amended_witness:
  "\<not> running idleWorld
   \<and> fst (join (joinFails userError) bothHandlers idleWorld) = Threw userError
   \<and> Called (OnCrash userError) Returned \<in> set (trace (start (joinFails userError) bothHandlers idleWorld))
   \<and> SetRunning True \<notin> set (new_events idleWorld (start (joinFails userError) bothHandlers idleWorld))
   \<and> Env RunningRaised \<notin> set (new_events idleWorld (start (joinFails userError) bothHandlers idleWorld))
   \<and> \<not> running (start (joinFails userError) bothHandlers idleWorld)
   \<and> running liveWorld
   \<and> fst (retrier (fetchFails notImplemented) bothHandlers
          (scheduleFetchAttempt (fetchFails notImplemented) bothHandlers) liveWorld) = Threw notImplemented
   \<and> Env StopCalled \<notin> set (new_events liveWorld (scheduleFetch (fetchFails notImplemented) bothHandlers liveWorld))
   \<and> running (scheduleFetch (fetchFails notImplemented) bothHandlers liveWorld)
   \<and> scheduleFetch quietEnv bothHandlers idleWorld =
        record_event (Log LDebug ''consumer not running, exiting'') idleWorld"
proof -
  let ?j = "join (joinFails userError) bothHandlers idleWorld"
  let ?r = "retrier (fetchFails notImplemented) bothHandlers
          (scheduleFetchAttempt (fetchFails notImplemented) bothHandlers) liveWorld"
  have j: "?j = (Threw userError, snd ?j)"
    using failed_start_run(2) by (metis prod.collapse)
  have r: "?r = (Threw notImplemented, snd ?r)"
    using crash_retrier_run by (metis prod.collapse)
  have ns: "Env StopCalled \<notin> set (new_events liveWorld (scheduleFetch (fetchFails notImplemented) bothHandlers liveWorld))"
    by (simp add: new_events_def crash_run(1) rejoin_run(4))
  have nw: "SetRunning True \<notin> set (new_events idleWorld (start (joinFails userError) bothHandlers idleWorld))"
    "Env RunningRaised \<notin> set (new_events idleWorld (start (joinFails userError) bothHandlers idleWorld))"
  proof -
    have t0: "trace idleWorld = []" by (simp add: idleWorld_def liveWorld_def)
    show "SetRunning True \<notin> set (new_events idleWorld (start (joinFails userError) bothHandlers idleWorld))"
      "Env RunningRaised \<notin> set (new_events idleWorld (start (joinFails userError) bothHandlers idleWorld))"
      by (simp_all add: new_events_def failed_start_run(3) t0)
  qed
  from C5_running_after_crash_amended
    [of idleWorld "joinFails userError" bothHandlers userError "snd ?j"] failed_start_run(1) j nw
  have 1: "\<not> running (start (joinFails userError) bothHandlers idleWorld)" by blast
  from C5_running_after_crash_amended
    [of liveWorld "fetchFails notImplemented" bothHandlers notImplemented "snd ?r"] rejoin_run(3) r ns
  have 2: "running (scheduleFetch (fetchFails notImplemented) bothHandlers liveWorld)" by blast
  from C5_running_after_crash_amended [of idleWorld quietEnv bothHandlers] failed_start_run(1)
  have 3: "scheduleFetch quietEnv bothHandlers idleWorld =
        record_event (Log LDebug ''consumer not running, exiting'') idleWorld" by blast
  show ?thesis
    using failed_start_run crash_retrier_run rejoin_run(3) ns nw 1 2 3 by simp
qed

subsection \<open>Errors of a fetch cycle\<close>

text \<open>
  Claim C2. The \<^verbatim>\<open>catch\<close> of the fetch loop reacts to an error exactly as the ordered
  taxonomy says: not running, clean exit; REBALANCE_IN_PROGRESS or
  NOT_COORDINATOR_FOR_GROUP, re-join and re-enter; UNKNOWN_MEMBER_ID, clear the member id,
  re-join and re-enter; KafkaJSOffsetOutOfRange, swallow and re-enter;
  KafkaJSNotImplemented, bail; anything else, re-throw. A re-join never bails: it re-enters
  when the join returns and re-throws the join's error otherwise. In \<^verbatim>\<open>scheduleFetch\<close>
  a bail goes to \<^verbatim>\<open>onCrash\<close> at once, a re-thrown error goes through the retrier's
  backoff and reaches \<^verbatim>\<open>onCrash\<close> only when the retries are used up.
\<close>

theorem C2_fetch_error_classification:
  "scheduleFetchCatch en cfg e w1 =
     (case classifyFetchError (running w1) e of
        CleanExit \<Rightarrow> (Done, record_event (Log LDebug ''consumer not running, exiting'') w1)
      | RejoinReenter \<Rightarrow>
          rejoinAndReenter en cfg (record_event (Log LError ''The group is rebalancing, re-joining'') w1)
      | ClearMemberRejoinReenter \<Rightarrow>
          rejoinAndReenter en cfg
            (record_event SetMemberIdNull
               ((record_event
                   (Log LError ''The coordinator is not aware of this member, re-joining the group'') w1)
                \<lparr>memberId := None\<rparr>))
      | SwallowReenter \<Rightarrow> (Done, record_event (ScheduleFetch Direct) w1)
      | BailOut \<Rightarrow> (Bailed e, w1)
      | Rethrow \<Rightarrow>
          (Rethrown e, record_event (Log LDebug ''Error while fetching data, trying again...'') w1))
   \<and> (\<forall>e' v. fst (rejoinAndReenter en cfg v) \<noteq> Bailed e')
   \<and> (\<forall>v. rejoinAndReenter en cfg v =
          (case join en cfg v of
             (Returned, v1) \<Rightarrow> (Done, record_event (ScheduleFetch Direct) v1)
           | (Threw e', v1) \<Rightarrow> (Rethrown e', v1)))
   \<and> (running w \<and> fetch en cfg (setConsuming True w) = (Threw e, w1)
        \<and> scheduleFetchCatch en cfg e w1 = (a, w2) \<longrightarrow>
       scheduleFetch en cfg w =
         (case a of
            Done \<Rightarrow> setConsuming False w2
          | Bailed e' \<Rightarrow> onCrash en e' (setConsuming False w2)
          | Rethrown e' \<Rightarrow>
              (case retries cfg of
                 0 \<Rightarrow> onCrash en e' (setConsuming False w2)
               | Suc n \<Rightarrow>
                   (case retryLoop en n 1 (scheduleFetchAttempt en cfg)
                           (snd (perform en (Backoff 0) (setConsuming False w2))) of
                      (Returned, w3) \<Rightarrow> w3
                    | (Threw e'', w3) \<Rightarrow> onCrash en e'' w3))))"
  using scheduleFetchCatch_classified [of en cfg e w1] rejoinAndReenter_outcome [of en cfg]
    scheduleFetch_failed_cycle [of w en cfg e w1 a w2]
  by blast

theorem C2_fetch_error_classification_witness:
  "running liveWorld
   \<and> fst (fetch (fetchFails notImplemented) bothHandlers (setConsuming True liveWorld)) = Threw notImplemented
   \<and> classifyFetchError
        (running (snd (fetch (fetchFails notImplemented) bothHandlers (setConsuming True liveWorld))))
        notImplemented = BailOut
   \<and> scheduleFetch (fetchFails notImplemented) bothHandlers liveWorld =
        onCrash (fetchFails notImplemented) notImplemented
          (setConsuming False (snd (fetch (fetchFails notImplemented) bothHandlers (setConsuming True liveWorld))))"
proof -
  let ?en = "fetchFails notImplemented"
  let ?w1 = "snd (fetch ?en bothHandlers (setConsuming True liveWorld))"
  note inst = C2_fetch_error_classification
    [of ?en bothHandlers notImplemented ?w1 liveWorld "Bailed notImplemented" ?w1]
  have cls: "classifyFetchError (running ?w1) notImplemented = BailOut"
    using bail_run(2,3) by simp
  from inst cls have c: "scheduleFetchCatch ?en bothHandlers notImplemented ?w1 = (Bailed notImplemented, ?w1)"
    by simp
  from inst rejoin_run(3) bail_run(1) c
  have "scheduleFetch ?en bothHandlers liveWorld = onCrash ?en notImplemented (setConsuming False ?w1)"
    by simp
  moreover have "fst (fetch ?en bothHandlers (setConsuming True liveWorld)) = Threw notImplemented"
    by (subst bail_run(1)) simp
  ultimately show ?thesis using rejoin_run(3) cls by blast
qed

subsection \<open>Bounded fan-out\<close>

text \<open>
  Claim C9. After \<^verbatim>\<open>fetch\<close> has handed the batches of a cycle to the limiter, and
  whatever is submitted or completes afterwards: at most
  \<^verbatim>\<open>partitionsConsumedConcurrently\<close> tasks are in flight; the tasks started so far,
  followed by those waiting, are the tasks in the order they were handed over (admission
  is FIFO); with limit 1 at most one task is in flight; and a task in flight that rejects
  leaves its slot, its future settles with that very error, and the first waiting task,
  if any, starts at once.
\<close>

theorem C9_concurrency_limit:
  "length (inFlight (limiterRun evs (fanOut cfg batches))) \<le> partitionsConsumedConcurrently cfg
   \<and> started (limiterRun evs (fanOut cfg batches)) @ waiting (limiterRun evs (fanOut cfg batches)) =
       batches @ submitted evs
   \<and> (partitionsConsumedConcurrently cfg = 1 \<longrightarrow>
        length (inFlight (limiterRun evs (fanOut cfg batches))) \<le> 1)
   \<and> (t \<in> set (inFlight (limiterRun evs (fanOut cfg batches))) \<longrightarrow>
        settled (complete t (Threw e) (limiterRun evs (fanOut cfg batches))) =
          settled (limiterRun evs (fanOut cfg batches)) @ [(t, Threw e)]
        \<and> inFlight (complete t (Threw e) (limiterRun evs (fanOut cfg batches))) =
            remove1 t (inFlight (limiterRun evs (fanOut cfg batches)))
              @ take 1 (waiting (limiterRun evs (fanOut cfg batches)))
        \<and> started (complete t (Threw e) (limiterRun evs (fanOut cfg batches))) =
            started (limiterRun evs (fanOut cfg batches))
              @ take 1 (waiting (limiterRun evs (fanOut cfg batches)))
        \<and> waiting (complete t (Threw e) (limiterRun evs (fanOut cfg batches))) =
            drop 1 (waiting (limiterRun evs (fanOut cfg batches))))"
proof -
  let ?s = "limiterRun evs (fanOut cfg batches)"
  from fanOut_inv [of cfg batches] have inv0: "limiterInv (fanOut cfg batches)"
    and lim0: "limit (fanOut cfg batches) = partitionsConsumedConcurrently cfg"
    and ord0: "started (fanOut cfg batches) @ waiting (fanOut cfg batches) = batches"
    by simp_all
  from limiterRun_inv [OF inv0, of evs] have inv: "limiterInv ?s"
    and ord: "started ?s @ waiting ?s = started (fanOut cfg batches) @ waiting (fanOut cfg batches) @ submitted evs"
    by simp_all
  have 1: "length (inFlight ?s) \<le> partitionsConsumedConcurrently cfg"
    using inv lim0 by (simp add: limiterInv_def)
  have 2: "started ?s @ waiting ?s = batches @ submitted evs"
    using ord ord0 by (metis append.assoc)
  show ?thesis using 1 2 complete_rejected [of t ?s e] by simp
qed

lemma limit_run_two:
  "partitionsConsumedConcurrently noHandlers = 1"
  "inFlight (limiterRun [] (fanOut noHandlers [batch10, batch20])) = [batch10]"
  "waiting (limiterRun [] (fanOut noHandlers [batch10, batch20])) = [batch20]"
  "settled (limiterRun [] (fanOut noHandlers [batch10, batch20])) = []"
  by (simp_all add: noHandlers_def limiterRun_def fanOut_def limitConcurrency_def submit_def)

theorem C9_concurrency_limit_witness:
  "partitionsConsumedConcurrently noHandlers = 1
   \<and> batch10 \<in> set (inFlight (limiterRun [] (fanOut noHandlers [batch10, batch20])))
   \<and> length (inFlight (limiterRun [] (fanOut noHandlers [batch10, batch20]))) \<le> 1
   \<and> settled (complete batch10 (Threw userError) (limiterRun [] (fanOut noHandlers [batch10, batch20]))) =
       [(batch10, Threw userError)]
   \<and> inFlight (complete batch10 (Threw userError) (limiterRun [] (fanOut noHandlers [batch10, batch20]))) =
       [batch20]
   \<and> waiting (complete batch10 (Threw userError) (limiterRun [] (fanOut noHandlers [batch10, batch20]))) = []"
proof -
  let ?s = "limiterRun [] (fanOut noHandlers [batch10, batch20])"
  note inst = C9_concurrency_limit [of "[]" noHandlers "[batch10, batch20]" batch10 userError]
  have mem: "batch10 \<in> set (inFlight ?s)" by (simp add: limit_run_two)
  from inst limit_run_two(1) have 1: "length (inFlight ?s) \<le> 1" by blast
  from inst mem have 2: "settled (complete batch10 (Threw userError) ?s) = settled ?s @ [(batch10, Threw userError)]"
    and 3: "inFlight (complete batch10 (Threw userError) ?s) = remove1 batch10 (inFlight ?s) @ take 1 (waiting ?s)"
    and 4: "waiting (complete batch10 (Threw userError) ?s) = drop 1 (waiting ?s)"
    by blast+
  show ?thesis
    using limit_run_two(1) mem 1 2 3 4 by (simp add: limit_run_two)
qed

subsection \<open>Heartbeat calls\<close>

text \<open>
  The order of calls, which is what the embedding has of the heartbeat cadence (it has no
  clock): message-at-a-time processing sends one heartbeat, with the configured interval,
  for every offset it resolves, and a fetch cycle that succeeds ends with a heartbeat.
\<close>

lemma filter_isHeartbeat_Env [simp]: "filter isHeartbeat (map Env acts) = []"
  by (induction acts) simp_all

lemma eachMessageLoop_heartbeats:
  assumes "eachMessageLoop en cfg t p ms w = (r, w')"
  shows "\<exists>rs. filter isHeartbeat (new_events w w') = map (Called (Heartbeat (heartbeatInterval cfg))) rs
           \<and> length rs = length (filter isResolve (new_events w w'))"
  using assms
proof (induction ms arbitrary: w)
  case Nil
  then show ?case by (simp add: new_events_def)
next
  case (Cons m0 ms)
  show ?case
  proof (cases "\<not> running w \<or> hasSeekOffset w t p")
    case True
    with Cons.prems show ?thesis by (simp add: new_events_def)
  next
    case False
    then have run: "running w" "\<not> hasSeekOffset w t p" by simp_all
    obtain r1 w1 where i: "invokeEachMessage cfg t p m0 w = (r1, w1)" by force
    have "\<exists>acts1. trace w1 = trace w @ map Env acts1 @
        (if eachMessage cfg = None then [] else [Called (EachMessage t p m0) r1])"
      using trace_invokeEachMessage [of cfg t p m0 w] unfolding i fst_conv snd_conv .
    then obtain acts1 where t1: "trace w1 = trace w @ map Env acts1 @
        (if eachMessage cfg = None then [] else [Called (EachMessage t p m0) r1])" ..
    show ?thesis
    proof (cases r1)
      case (Threw e1)
      let ?w2 = "logUnlessKafkaJSError e1 ''Error when calling eachMessage'' w1"
      obtain c w3 where p: "perform en (CommitOffsets None) ?w2 = (c, w3)" by force
      have "eachMessageLoop en cfg t p (m0 # ms) w =
          (case c of Returned \<Rightarrow> Threw e1 | Threw e' \<Rightarrow> Threw e', w3)"
        using i Threw by (intro eachMessageLoop_threw [OF run _ p]) simp
      with Cons.prems have w': "w' = w3" by simp
      have "trace w3 = trace w @ map Env acts1 @
          (if eachMessage cfg = None then [] else [Called (EachMessage t p m0) (Threw e1)])
          @ (if e_kafkajs e1 then [] else [Log LError ''Error when calling eachMessage''])
          @ map Env (fst (respond en (CommitOffsets None) ?w2))
          @ [Called (CommitOffsets None) (snd (respond en (CommitOffsets None) ?w2))]"
        using trace_perform [of en "CommitOffsets None" ?w2] p t1 Threw by (simp add: trace_logUnless)
      from new_events_append [OF this] show ?thesis
        unfolding w' by (intro exI [of _ "[]"]) simp
    next
      case Returned
      let ?w2 = "resolveOffset t p (offset m0) w1"
      let ?hb = "Heartbeat (heartbeatInterval cfg)"
      obtain r3 w3 where p3: "perform en ?hb ?w2 = (r3, w3)" by force
      obtain r4 w4 where p4: "perform en CommitOffsetsIfNecessary w3 = (r4, w4)" by force
      have r3: "r3 = snd (respond en ?hb ?w2)" using fst_perform [of en ?hb ?w2] p3 by simp
      let ?head = "map Env acts1 @
          (if eachMessage cfg = None then [] else [Called (EachMessage t p m0) Returned])
          @ [Resolve t p (offset m0)] @ map Env (fst (respond en ?hb ?w2)) @ [Called ?hb r3]"
      let ?head4 = "?head @ map Env (fst (respond en CommitOffsetsIfNecessary w3))
            @ [Called CommitOffsetsIfNecessary (snd (respond en CommitOffsetsIfNecessary w3))]"
      have n3: "trace w3 = trace w @ ?head"
        using trace_perform [of en ?hb ?w2] p3 t1 Returned r3 by simp
      have n4: "trace w4 = trace w @ ?head4"
        using trace_perform [of en CommitOffsetsIfNecessary w3] p4 n3 by simp
      have h3: "filter isHeartbeat ?head = map (Called ?hb) [r3]" "length (filter isResolve ?head) = 1"
        by simp_all
      have h4: "filter isHeartbeat ?head4 = map (Called ?hb) [r3]" "length (filter isResolve ?head4) = 1"
        by simp_all
      have loop: "eachMessageLoop en cfg t p (m0 # ms) w =
         (case r3 of Threw e \<Rightarrow> (Threw e, w3)
          | Returned \<Rightarrow> (case r4 of Threw e \<Rightarrow> (Threw e, w4) | Returned \<Rightarrow> eachMessageLoop en cfg t p ms w4))"
        using i Returned by (intro eachMessageLoop_handled [OF run _ p3 p4]) simp
      show ?thesis
      proof (cases "r3 = Returned \<and> r4 = Returned")
        case False
        then consider "w' = w3" | "w' = w4"
          using loop Cons.prems by (cases r3; cases r4) auto
        then show ?thesis
        proof cases
          case 1
          from new_events_append [OF n3] h3 show ?thesis
            unfolding 1 by (intro exI [of _ "[r3]"]) simp
        next
          case 2
          from new_events_append [OF n4] h4 show ?thesis
            unfolding 2 by (intro exI [of _ "[r3]"]) simp
        qed
      next
        case True
        then have rest: "eachMessageLoop en cfg t p ms w4 = (r, w')"
          using loop Cons.prems by simp
        from Cons.IH [OF rest] obtain rs where
          rs: "filter isHeartbeat (new_events w4 w') = map (Called ?hb) rs"
            "length rs = length (filter isResolve (new_events w4 w'))" by blast
        have "grows messageModeEvent w4 w'"
          using grows_eachMessageLoop [of w4 en cfg t p ms] rest by simp
        from grows_trace [OF this] have "trace w' = trace w4 @ new_events w4 w'" .
        from new_events_split [OF n4 this] have ne: "new_events w w' = ?head4 @ new_events w4 w'" .
        show ?thesis
          unfolding ne using rs h4 by (intro exI [of _ "r3 # rs"]) simp
      qed
    qed
  qed
qed

lemma fetch_trailing_heartbeat:
  assumes "fst (fetch en cfg w) = Returned"
  shows "last (trace (snd (fetch en cfg w))) = Called (Heartbeat (heartbeatInterval cfg)) Returned"
proof -
  obtain r1 w1 where p: "perform en GroupFetch w = (r1, w1)" by force
  let ?w2 = "record_event (Emit (FETCH (length (fetched en w)))) w1"
  obtain r3 w3 where t: "runTasks en cfg (fetched en w) ?w2 = (r3, w3)" by force
  obtain r4 w4 where c: "autoCommitOffsets en cfg w3 = (r4, w4)" by force
  let ?hb = "Heartbeat (heartbeatInterval cfg)"
  from assms p t c have all: "r1 = Returned" "r3 = Returned" "r4 = Returned"
    and f: "fetch en cfg w = perform en ?hb w4"
    by (cases r1; cases r3; cases r4; simp add: fetch_def Let_def)+
  from assms f have "snd (respond en ?hb w4) = Returned" by simp
  with trace_perform [of en ?hb w4] f show ?thesis by simp
qed

end
